theory Spec2Isabelle
  imports Main
begin

section \<open>JavaScript values\<close>

text \<open>
  The values the client passes around: error values, decoded response bodies, result
  items, and the objects it builds. An object is the list of its own properties in
  insertion order; numbers are the integers the code produces (status codes, lengths).
  Of a string the code inspects only whether it is empty and where it holds the
  character \<open>/\<close>.
\<close>

datatype jsval =
    JUndefined
  | JNull
  | JBool bool
  | JNum int
  | JStr string
  | JArr "jsval list"
  | JObj "(string \<times> jsval) list"

text \<open>\<^verbatim>\<open>if (v)\<close>: every value is truthy except undefined, null, false, 0 and the empty string.\<close>

fun truthy :: "jsval \<Rightarrow> bool" where
  "truthy JUndefined = False"
| "truthy JNull = False"
| "truthy (JBool b) = b"
| "truthy (JNum n) = (n \<noteq> 0)"
| "truthy (JStr s) = (s \<noteq> [])"
| "truthy (JArr xs) = True"
| "truthy (JObj kvs) = True"

text \<open>\<^verbatim>\<open>_.isString(v)\<close>\<close>

fun isString :: "jsval \<Rightarrow> bool" where
  "isString (JStr s) = True"
| "isString v = False"

datatype js_exn = TypeError | SyntaxError

text \<open>
  How a call of the library ends: the caller's callback is invoked with \<open>(err, data)\<close>,
  the returned promise is resolved or rejected, or an exception leaves an event handler
  and nobody is notified.
\<close>

datatype completion =
    Callback jsval jsval
  | Resolve jsval
  | Reject jsval
  | Uncaught js_exn

section \<open>Pages and the single-page query operations\<close>

text \<open>
  The document a page query returns: the keys \<open>result_count\<close>, \<open>search_result_total\<close>,
  \<open>page\<close> and \<open>results\<close>, the last one an array of result items. The helpers read
  \<open>results\<close> only. A decoded body of another shape (an object without a \<open>results\<close>
  array) is not modelled; a \<open>null\<close> in its place is.
\<close>

record page_doc =
  result_count :: int
  search_result_total :: int
  page_no :: int
  results :: "jsval list"

text \<open>
  \<^verbatim>\<open>osdf.query_page(query, namespace, page, callback)\<close> and its OQL sibling send one
  request and, when it has completed, invoke \<open>callback(err, page_result)\<close> once. The
  server and the network are a state \<open>'s\<close> that every request may change; the pair
  returned is the argument pair of the callback, \<open>None\<close> standing for a \<open>null\<close>
  \<open>page_result\<close>. The callback runs from an event handler of the request, after the
  call of the operation has returned: an exception thrown while it runs reaches neither
  the caller of the helper nor its promise. Page numbers are natural numbers (the
  counter stays far below \<open>2^53\<close>, where the increment of a JavaScript number is exact).
\<close>

type_synonym 's page_fetch =
  "jsval \<Rightarrow> string \<Rightarrow> nat \<Rightarrow> 's \<Rightarrow> (jsval \<times> page_doc option) \<times> 's"

record 's client =
  oql_query_page :: "'s page_fetch"
  query_page :: "'s page_fetch"

section \<open>The aggregation helpers\<close>

text \<open>
  The variables the closures of one helper call share: \<open>page\<close>, \<open>has_next_page\<close> and
  \<open>all_results\<close> of the source, the state of the outside world, and the log of the calls
  of \<open>func\<close> made so far (page number passed, arguments the callback received).
\<close>

record 's vars =
  page :: nat
  has_next_page :: bool
  all_results :: "jsval list"
  world :: 's
  calls :: "(nat \<times> jsval \<times> page_doc option) list"

text \<open>
  An asynchronous function handed to \<open>async.doWhilst\<close> ends by calling \<open>cb(err)\<close> with a
  truthy error, by calling \<open>cb(null, value)\<close>, or by throwing.
\<close>

datatype 'a cb_result = CbErr jsval | CbOk 'a | Thrown js_exn

text \<open>
  \<open>async.doWhilst(iteratee, test, callback)\<close> of the async library (version 3 calling
  convention, which the asynchronous \<open>test\<close> of the source requires): run \<open>iteratee\<close>;
  on an error call \<open>callback(err)\<close>; otherwise run \<open>test\<close> on the results, and repeat
  while it reports a truthy value; when it does not, call \<open>callback(null, results)\<close>.
  The loop need not end, so the result is an option.
\<close>

partial_function (option) doWhilst ::
  "('v \<Rightarrow> 'r cb_result \<times> 'v) \<Rightarrow> ('r \<Rightarrow> 'v \<Rightarrow> bool cb_result) \<Rightarrow>
   (jsval \<Rightarrow> 'r option \<Rightarrow> 'v \<Rightarrow> completion) \<Rightarrow> 'v \<Rightarrow> (completion \<times> 'v) option"
where
  "doWhilst iteratee test callback v =
     (case iteratee v of
        (Thrown x, v') \<Rightarrow> Some (Uncaught x, v')
      | (CbErr err, v') \<Rightarrow> Some (callback err None v', v')
      | (CbOk r, v') \<Rightarrow>
          (case test r v' of
             Thrown x \<Rightarrow> Some (Uncaught x, v')
           | CbErr err \<Rightarrow> Some (callback err None v', v')
           | CbOk truth \<Rightarrow>
               if truth then doWhilst iteratee test callback v'
               else Some (callback JNull (Some r) v', v')))"

declare doWhilst.simps [code]

text \<open>The same loop cut off after \<open>n\<close> rounds: \<open>None\<close> when it is still running then.\<close>

fun doWhilst_rounds ::
  "nat \<Rightarrow> ('v \<Rightarrow> 'r cb_result \<times> 'v) \<Rightarrow> ('r \<Rightarrow> 'v \<Rightarrow> bool cb_result) \<Rightarrow>
   (jsval \<Rightarrow> 'r option \<Rightarrow> 'v \<Rightarrow> completion) \<Rightarrow> 'v \<Rightarrow> completion option \<times> 'v"
where
  "doWhilst_rounds 0 iteratee test callback v = (None, v)"
| "doWhilst_rounds (Suc n) iteratee test callback v =
     (case iteratee v of
        (Thrown x, v') \<Rightarrow> (Some (Uncaught x), v')
      | (CbErr err, v') \<Rightarrow> (Some (callback err None v'), v')
      | (CbOk r, v') \<Rightarrow>
          (case test r v' of
             Thrown x \<Rightarrow> (Some (Uncaught x), v')
           | CbErr err \<Rightarrow> (Some (callback err None v'), v')
           | CbOk truth \<Rightarrow>
               if truth then doWhilst_rounds n iteratee test callback v'
               else (Some (callback JNull (Some r) v'), v')))"

text \<open>The object both helpers build from \<open>all_results\<close> when the loop has ended.\<close>

definition final :: "jsval list \<Rightarrow> jsval" where
  "final rs =
     JObj [(''search_result_total'', JNum (int (length rs))),
           (''result_count'', JNum (int (length rs))),
           (''results'', JArr rs)]"

subsection \<open>\<open>make_query_all_callback_helper\<close>\<close>

definition callback_iteratee ::
  "'s page_fetch \<Rightarrow> jsval \<Rightarrow> string \<Rightarrow> 's vars \<Rightarrow> jsval list cb_result \<times> 's vars"
where
  "callback_iteratee func query namespace v =
     (case func query namespace (page v) (world v) of
        ((err, page_result), w) \<Rightarrow>
          let v1 = v\<lparr>world := w, calls := calls v @ [(page v, err, page_result)]\<rparr> in
          if truthy err then (CbErr err, v1)
          else
            let v2 = v1\<lparr>page := page v1 + 1\<rparr> in
            (case page_result of
               None \<Rightarrow> (Thrown TypeError, v2)
             | Some p \<Rightarrow>
                 let v3 = (if length (results p) > 0
                           then v2\<lparr>all_results := all_results v2 @ results p\<rparr>
                           else v2\<lparr>has_next_page := False\<rparr>)
                 in (CbOk (all_results v3), v3)))"

definition callback_test :: "jsval list \<Rightarrow> 's vars \<Rightarrow> bool cb_result" where
  "callback_test rs v = CbOk (has_next_page v)"

definition callback_done :: "jsval \<Rightarrow> jsval list option \<Rightarrow> 's vars \<Rightarrow> completion" where
  "callback_done err rs v =
     (if truthy err then Callback err JNull
      else Callback JNull (final (all_results v)))"

definition make_query_all_callback_helper ::
  "jsval \<Rightarrow> string \<Rightarrow> 's client \<Rightarrow> 's \<Rightarrow> (completion \<times> 's vars) option"
where
  "make_query_all_callback_helper query namespace osdf w =
     (let v = \<lparr>page = 1, has_next_page = True, all_results = [], world = w, calls = []\<rparr>;
          func = (if isString query then oql_query_page osdf else query_page osdf)
      in doWhilst (callback_iteratee func query namespace) callback_test callback_done v)"

subsection \<open>\<open>make_query_all_promise_helper\<close>\<close>

definition promise_iteratee ::
  "'s page_fetch \<Rightarrow> jsval \<Rightarrow> string \<Rightarrow> 's vars \<Rightarrow> jsval list cb_result \<times> 's vars"
where
  "promise_iteratee func query namespace v =
     (case func query namespace (page v) (world v) of
        ((err, page_result), w) \<Rightarrow>
          let v1 = v\<lparr>world := w, calls := calls v @ [(page v, err, page_result)]\<rparr> in
          if truthy err then (CbErr err, v1)
          else
            let v2 = v1\<lparr>page := page v1 + 1\<rparr> in
            (case page_result of
               None \<Rightarrow> (Thrown TypeError, v2)
             | Some p \<Rightarrow>
                 let v3 = (if length (results p) > 0
                           then v2\<lparr>all_results := all_results v2 @ results p\<rparr>
                           else v2\<lparr>has_next_page := False\<rparr>)
                 in (CbOk (all_results v3), v3)))"

definition promise_test :: "jsval list \<Rightarrow> 's vars \<Rightarrow> bool cb_result" where
  "promise_test rs v = CbOk (has_next_page v)"

definition promise_done :: "jsval \<Rightarrow> jsval list option \<Rightarrow> 's vars \<Rightarrow> completion" where
  "promise_done err rs v =
     (if truthy err then Reject err
      else Resolve (final (all_results v)))"

definition make_query_all_promise_helper ::
  "jsval \<Rightarrow> string \<Rightarrow> 's client \<Rightarrow> 's \<Rightarrow> (completion \<times> 's vars) option"
where
  "make_query_all_promise_helper query namespace osdf w =
     (let v = \<lparr>page = 1, has_next_page = True, all_results = [], world = w, calls = []\<rparr>;
          func = (if isString query then oql_query_page osdf else query_page osdf)
      in doWhilst (promise_iteratee func query namespace) promise_test promise_done v)"

subsection \<open>The public entry points\<close>

text \<open>
  \<open>osdf.query_all\<close> and \<open>osdf.oql_query_all\<close> take the callback style when the caller
  passes a function as callback, the promise style otherwise; both hand the module
  object \<open>osdf\<close> to the helper.
\<close>

definition query_all ::
  "'s client \<Rightarrow> jsval \<Rightarrow> string \<Rightarrow> bool \<Rightarrow> 's \<Rightarrow> (completion \<times> 's vars) option"
where
  "query_all osdf es_query namespace callback_given w =
     (if callback_given then make_query_all_callback_helper es_query namespace osdf w
      else make_query_all_promise_helper es_query namespace osdf w)"

definition oql_query_all ::
  "'s client \<Rightarrow> jsval \<Rightarrow> string \<Rightarrow> bool \<Rightarrow> 's \<Rightarrow> (completion \<times> 's vars) option"
where
  "oql_query_all osdf oql_query namespace callback_given w =
     (if callback_given then make_query_all_callback_helper oql_query namespace osdf w
      else make_query_all_promise_helper oql_query namespace osdf w)"

section \<open>Notions used to state the properties\<close>

text \<open>The single-page operation a helper binds to \<open>func\<close> for a query.\<close>

definition page_op :: "'s client \<Rightarrow> jsval \<Rightarrow> 's page_fetch" where
  "page_op osdf query = (if isString query then oql_query_page osdf else query_page osdf)"

text \<open>
  What the outside world answers when \<open>func\<close> is called for the pages \<open>p\<close>, \<open>p + 1\<close>,
  \<open>\<dots>\<close>, \<open>p + n - 1\<close> one after the other, starting in state \<open>w\<close>.
\<close>

fun fetch_seq ::
  "'s page_fetch \<Rightarrow> jsval \<Rightarrow> string \<Rightarrow> nat \<Rightarrow> nat \<Rightarrow> 's \<Rightarrow> (jsval \<times> page_doc option) list"
where
  "fetch_seq func query namespace p 0 w = []"
| "fetch_seq func query namespace p (Suc n) w =
     (case func query namespace p w of
        (r, w') \<Rightarrow> r # fetch_seq func query namespace (Suc p) n w')"

text \<open>
  The result list a page fetch delivered: the callback received a falsy \<open>err\<close> and a
  page document. A fetch that reported a truthy error, or passed \<open>null\<close> as the page,
  delivered nothing.
\<close>

fun delivered :: "jsval \<times> page_doc option \<Rightarrow> jsval list option" where
  "delivered (err, Some p) = (if truthy err then None else Some (results p))"
| "delivered (err, None) = None"

text \<open>The state both helpers start from, and the callback helper cut off after \<open>n\<close> rounds.\<close>

definition initial_vars :: "'s \<Rightarrow> 's vars" where
  "initial_vars w = \<lparr>page = 1, has_next_page = True, all_results = [], world = w, calls = []\<rparr>"

definition callback_helper_rounds ::
  "nat \<Rightarrow> jsval \<Rightarrow> string \<Rightarrow> 's client \<Rightarrow> 's \<Rightarrow> completion option \<times> 's vars"
where
  "callback_helper_rounds n query namespace osdf w =
     doWhilst_rounds n (callback_iteratee (page_op osdf query) query namespace)
       callback_test callback_done (initial_vars w)"

text \<open>
  A log of calls is in sequence when the page numbers passed are \<open>1, 2, 3, \<dots>\<close> and
  every call but the last one delivered a non-empty result list.
\<close>

fun delivered_more :: "jsval \<times> page_doc option \<Rightarrow> bool" where
  "delivered_more r = (case delivered r of Some (x # xs) \<Rightarrow> True | _ \<Rightarrow> False)"

definition in_sequence :: "(nat \<times> jsval \<times> page_doc option) list \<Rightarrow> bool" where
  "in_sequence cs \<longleftrightarrow>
     map fst cs = [1..<Suc (length cs)] \<and> list_all (\<lambda>c. delivered_more (snd c)) (butlast cs)"

text \<open>
  What holds of the variables while the loop goes on: the next page to request is one
  more than the number of calls made, and every call so far delivered a non-empty list.
\<close>

definition running :: "'s vars \<Rightarrow> bool" where
  "running v \<longleftrightarrow>
     page v = Suc (length (calls v)) \<and> map fst (calls v) = [1..<page v] \<and>
     list_all (\<lambda>c. delivered_more (snd c)) (calls v)"

text \<open>
  How a completion in the callback style reads in the promise style: a truthy \<open>err\<close>
  rejects with it, anything else resolves with the data.
\<close>

fun settle :: "completion \<Rightarrow> completion" where
  "settle (Callback err data) = (if truthy err then Reject err else Resolve data)"
| "settle c = c"

section \<open>Decoding a response\<close>

text \<open>
  The response object of the \<open>http\<close> module as far as the client reads it. \<open>headers\<close>
  is the object of received headers (\<open>None\<close>: no such own property), \<open>statusMessage\<close>
  is \<open>None\<close> when the response object has no such own property, \<open>chunks\<close> are the
  arguments of the \<open>data\<close> events in the order they arrive. The client sets no
  encoding on the response, so every chunk is a \<open>Buffer\<close>: a sequence of bytes that
  ends wherever the network cut the body.
\<close>

type_synonym buffer = "char list"

record response =
  statusCode :: int
  headers :: "string \<rightharpoonup> jsval"
  statusMessage :: "jsval option"
  chunks :: "buffer list"

text \<open>A request ends with an \<open>error\<close> event, or with a response that has ended.\<close>

datatype transport = RequestError jsval | Response response

text \<open>
  \<^verbatim>\<open>body = body + chunk\<close> for every chunk, starting from the empty string. Adding a
  \<open>Buffer\<close> to a string converts that one buffer to a string first, by its own
  \<open>toString()\<close>: each chunk is decoded apart from its neighbours. The conversion is
  a function of the runtime, and a parameter \<open>toString\<close> of the model.
\<close>

definition body :: "(buffer \<Rightarrow> string) \<Rightarrow> response \<Rightarrow> string" where
  "body toString response = foldl (\<lambda>b chunk. b @ toString chunk) [] (chunks response)"

text \<open>
  \<open>JSON.parse\<close> is a function of the language: it is a parameter \<open>JSON_parse\<close> of the
  model, returning the decoded value or the exception it throws.
\<close>

definition make_regular_cb ::
  "(buffer \<Rightarrow> string) \<Rightarrow> (string \<Rightarrow> js_exn + jsval) \<Rightarrow> response \<Rightarrow> completion"
where
  "make_regular_cb toString JSON_parse response =
     (if statusCode response \<ge> 200 \<and> statusCode response < 300 then
        (case JSON_parse (body toString response) of
           Inl x \<Rightarrow> Uncaught x
         | Inr v \<Rightarrow> Callback JNull v)
      else
        (case headers response ''x-osdf-error'' of
           Some h \<Rightarrow> Callback h JNull
         | None \<Rightarrow>
             (case statusMessage response of
                Some m \<Rightarrow> Callback m JNull
              | None \<Rightarrow> Callback (JNum (statusCode response)) JNull)))"




text \<open>
  The error value as the specification words it: the \<open>x-osdf-error\<close> header if present,
  otherwise the status message if present, otherwise the numeric status code.
\<close>

definition error_by_precedence :: "response \<Rightarrow> jsval" where
  "error_by_precedence r =
     (if headers r ''x-osdf-error'' \<noteq> None then the (headers r ''x-osdf-error'')
      else if statusMessage r \<noteq> None then the (statusMessage r)
      else JNum (statusCode r))"

section \<open>Inserting a node\<close>

text \<open>\<^verbatim>\<open>s.split(c)\<close> for a one-character separator, and \<^verbatim>\<open>.pop()\<close> of the array it returns.\<close>

fun split :: "char \<Rightarrow> string \<Rightarrow> string list" where
  "split c [] = [[]]"
| "split c (x # xs) =
     (if x = c then [] # split c xs
      else (case split c xs of
              y # ys \<Rightarrow> (x # y) # ys
            | [] \<Rightarrow> [[x]]))"

fun pop :: "string list \<Rightarrow> jsval" where
  "pop [] = JUndefined"
| "pop (x # xs) = JStr (last (x # xs))"

text \<open>
  \<open>osdf.insert_node(node_data, callback)\<close>, given the outcome of its POST request. Reading
  \<open>split\<close> from a \<open>location\<close> header that is missing (or not a string) throws a
  \<open>TypeError\<close> inside the \<open>end\<close> handler.
\<close>

definition insert_node :: "jsval \<Rightarrow> bool \<Rightarrow> transport \<Rightarrow> completion" where
  "insert_node node_data callback_given t =
     (if callback_given then
        (case t of
           RequestError err \<Rightarrow> Callback err JNull
         | Response response \<Rightarrow>
             if statusCode response = 201 then
               (case headers response ''location'' of
                  Some (JStr location) \<Rightarrow> Callback JNull (pop (split CHR ''/'' location))
                | _ \<Rightarrow> Uncaught TypeError)
             else
               (case headers response ''x-osdf-error'' of
                  Some h \<Rightarrow> Callback h JNull
                | None \<Rightarrow>
                    (case statusMessage response of
                       Some m \<Rightarrow> Callback m JNull
                     | None \<Rightarrow> Callback (JNum (statusCode response)) JNull)))
      else
        (case t of
           RequestError err \<Rightarrow> Reject err
         | Response response \<Rightarrow>
             if statusCode response = 201 then
               (case headers response ''location'' of
                  Some (JStr location) \<Rightarrow> Resolve (pop (split CHR ''/'' location))
                | _ \<Rightarrow> Uncaught TypeError)
             else
               (case headers response ''x-osdf-error'' of
                  Some h \<Rightarrow> Reject h
                | None \<Rightarrow>
                    (case statusMessage response of
                       Some m \<Rightarrow> Reject m
                     | None \<Rightarrow> Reject (JNum (statusCode response))))))"

text \<open>The part of a string after its last \<open>/\<close>, as the specification words the node id.\<close>

definition after_last_slash :: "string \<Rightarrow> string" where
  "after_last_slash s = rev (takeWhile (\<lambda>c. c \<noteq> CHR ''/'') (rev s))"

section \<open>Example servers\<close>

text \<open>
  Concrete outside worlds on which the theorems below are exercised. The state of each
  is the number of requests it has served.
\<close>

definition server_page :: "int \<Rightarrow> nat \<Rightarrow> jsval list \<Rightarrow> page_doc" where
  "server_page n p xs =
     \<lparr>result_count = int (length xs), search_result_total = n, page_no = int p, results = xs\<rparr>"

text \<open>Three results in pages of two: \<open>[a, b]\<close>, \<open>[c]\<close>, then empty pages.\<close>

definition three_pages :: "nat page_fetch" where
  "three_pages query namespace p w =
     ((JNull, Some (server_page 3 p
         (if p = 1 then [JStr ''a'', JStr ''b''] else if p = 2 then [JStr ''c''] else []))),
      Suc w)"

text \<open>No results at all.\<close>

definition no_results :: "nat page_fetch" where
  "no_results query namespace p w = ((JNull, Some (server_page 0 p [])), Suc w)"

text \<open>One result on every page, without end.\<close>

definition endless :: "nat page_fetch" where
  "endless query namespace p w = ((JNull, Some (server_page 1 p [JNum (int p)])), Suc w)"

text \<open>Page 1 is served; every later request is refused with the error \<open>Forbidden\<close>.\<close>

definition refused_second :: "nat page_fetch" where
  "refused_second query namespace p w =
     (if p = 1 then (JNull, Some (server_page 3 p [JStr ''a'', JStr ''b'']))
      else (JStr ''Forbidden'', None),
      Suc w)"

text \<open>
  Page 1 is served; every later request fails with an empty error string (what
  \<open>make_regular_cb\<close> passes on for an error status with an empty \<open>x-osdf-error\<close>
  header or an empty reason phrase).
\<close>

definition unnamed_failure_second :: "nat page_fetch" where
  "unnamed_failure_second query namespace p w =
     (if p = 1 then (JNull, Some (server_page 3 p [JStr ''a'', JStr ''b'']))
      else (JStr [], None),
      Suc w)"

text \<open>Two operations that ignore the query and fail with different errors.\<close>

definition oql_down :: "nat page_fetch" where
  "oql_down query namespace p w = ((JStr ''oql'', None), Suc w)"

definition es_down :: "nat page_fetch" where
  "es_down query namespace p w = ((JStr ''es'', None), Suc w)"




section \<open>The loop and its bounded runs\<close>



lemma rounds_doWhilst:
  "doWhilst_rounds n it te cb v = (Some c, v') \<Longrightarrow> doWhilst it te cb v = Some (c, v')"
proof (induction n arbitrary: v)
  case 0
  then show ?case by simp
next
  case (Suc n)
  then show ?case
    by (subst doWhilst.simps) (auto split: prod.splits cb_result.splits if_splits)
qed

lemma delivered_Some:
  "delivered r = Some xs \<longleftrightarrow> (\<exists>e p. r = (e, Some p) \<and> \<not> truthy e \<and> results p = xs)"
  by (cases r rule: delivered.cases) auto

lemma delivered_None:
  "delivered r = None \<longleftrightarrow> (\<exists>e d. r = (e, d) \<and> (truthy e \<or> d = None))"
  by (cases r rule: delivered.cases) auto

lemma iteratee_more:
  assumes "func q ns (page v) (world v) = (r, w)" "delivered r = Some xs" "xs \<noteq> []"
  shows "callback_iteratee func q ns v =
           (CbOk (all_results v @ xs),
            v\<lparr>page := Suc (page v), all_results := all_results v @ xs, world := w,
              calls := calls v @ [(page v, r)]\<rparr>)"
  using assms by (auto simp: callback_iteratee_def delivered_Some Let_def)

lemma iteratee_last:
  assumes "func q ns (page v) (world v) = (r, w)" "delivered r = Some []"
  shows "callback_iteratee func q ns v =
           (CbOk (all_results v),
            v\<lparr>page := Suc (page v), has_next_page := False, world := w,
              calls := calls v @ [(page v, r)]\<rparr>)"
  using assms by (auto simp: callback_iteratee_def delivered_Some Let_def)

lemma iteratee_error:
  assumes "func q ns (page v) (world v) = ((e, d), w)" "truthy e"
  shows "callback_iteratee func q ns v =
           (CbErr e, v\<lparr>world := w, calls := calls v @ [(page v, e, d)]\<rparr>)"
  using assms by (auto simp: callback_iteratee_def Let_def)

lemma iteratee_null:
  assumes "func q ns (page v) (world v) = ((e, None), w)" "\<not> truthy e"
  shows "callback_iteratee func q ns v =
           (Thrown TypeError, v\<lparr>page := Suc (page v), world := w, calls := calls v @ [(page v, e, None)]\<rparr>)"
  using assms by (auto simp: callback_iteratee_def Let_def)


lemma rounds_pages:
  assumes "map delivered (fetch_seq func q ns (page v) (Suc (length xss)) (world v)) = map Some xss @ [Some []]"
    and "\<forall>xs\<in>set xss. xs \<noteq> []"
    and "has_next_page v"
  shows "\<exists>v'. doWhilst_rounds (Suc (length xss)) (callback_iteratee func q ns) callback_test cb v =
                (Some (cb JNull (Some (all_results v @ concat xss)) v'), v')
            \<and> all_results v' = all_results v @ concat xss
            \<and> calls v' = calls v @ zip [page v ..< page v + Suc (length xss)]
                                  (fetch_seq func q ns (page v) (Suc (length xss)) (world v))"
  using assms
proof (induction xss arbitrary: v)
  case Nil
  obtain r w where f: "func q ns (page v) (world v) = (r, w)" by (cases "func q ns (page v) (world v)")
  with Nil have d: "delivered r = Some []" by simp
  show ?case
    using f by (simp add: iteratee_last[of func q ns v r w, OF f d] callback_test_def)
next
  case (Cons xs xss)
  obtain r w where f: "func q ns (page v) (world v) = (r, w)" by (cases "func q ns (page v) (world v)")
  with Cons.prems have d: "delivered r = Some xs" and ne: "xs \<noteq> []"
    and rest: "map delivered (fetch_seq func q ns (Suc (page v)) (Suc (length xss)) w) = map Some xss @ [Some []]"
    by simp_all
  let ?v1 = "v\<lparr>page := Suc (page v), all_results := all_results v @ xs, world := w,
              calls := calls v @ [(page v, r)]\<rparr>"
  have "\<exists>v'. doWhilst_rounds (Suc (length xss)) (callback_iteratee func q ns) callback_test cb ?v1 =
                (Some (cb JNull (Some (all_results ?v1 @ concat xss)) v'), v')
            \<and> all_results v' = all_results ?v1 @ concat xss
            \<and> calls v' = calls ?v1 @ zip [page ?v1 ..< page ?v1 + Suc (length xss)]
                                  (fetch_seq func q ns (page ?v1) (Suc (length xss)) (world ?v1))"
    using rest Cons.prems(2,3) by (intro Cons.IH) simp_all
  then obtain v' where
    r: "doWhilst_rounds (Suc (length xss)) (callback_iteratee func q ns) callback_test cb ?v1 =
                (Some (cb JNull (Some (all_results v @ xs @ concat xss)) v'), v')"
    and a: "all_results v' = all_results v @ xs @ concat xss"
    and c: "calls v' = calls v @ (page v, r) # zip [Suc (page v) ..< Suc (page v) + Suc (length xss)]
                                  (fetch_seq func q ns (Suc (page v)) (Suc (length xss)) w)"
    by auto
  have "doWhilst_rounds (Suc (length (xs # xss))) (callback_iteratee func q ns) callback_test cb v =
          doWhilst_rounds (Suc (length xss)) (callback_iteratee func q ns) callback_test cb ?v1"
    using Cons.prems(3) by (simp add: iteratee_more[of func q ns v r w xs, OF f d ne] callback_test_def)
  moreover have "[page v ..< page v + Suc (length (xs # xss))] = page v # [Suc (page v) ..< Suc (page v) + Suc (length xss)]"
    using upt_conv_Cons[of "page v" "page v + Suc (length (xs # xss))"] by simp
  ultimately show ?case
    using r a c f by (intro exI[of _ v']) (simp del: upt_Suc)
qed


lemma rounds_failure:
  assumes "map delivered (fetch_seq func q ns (page v) (Suc (length xss)) (world v)) = map Some xss @ [None]"
    and "\<forall>xs\<in>set xss. xs \<noteq> []"
    and "has_next_page v"
  shows "\<exists>v' e d. last (fetch_seq func q ns (page v) (Suc (length xss)) (world v)) = (e, d)
            \<and> doWhilst_rounds (Suc (length xss)) (callback_iteratee func q ns) callback_test cb v =
                (Some (if truthy e then cb e None v' else Uncaught TypeError), v')
            \<and> calls v' = calls v @ zip [page v ..< page v + Suc (length xss)]
                                  (fetch_seq func q ns (page v) (Suc (length xss)) (world v))"
  using assms
proof (induction xss arbitrary: v)
  case Nil
  obtain e d w where f: "func q ns (page v) (world v) = ((e, d), w)"
    by (cases "func q ns (page v) (world v)") auto
  with Nil have d: "truthy e \<or> d = None" by (simp add: delivered_None)
  show ?case
  proof (cases "truthy e")
    case True
    then show ?thesis using f by (simp add: iteratee_error[of func q ns v e d w, OF f])
  next
    case False
    with d f have f': "func q ns (page v) (world v) = ((e, None), w)" by simp
    show ?thesis using f' False by (simp add: iteratee_null[of func q ns v e w, OF f' False])
  qed
next
  case (Cons xs xss)
  obtain r w where f: "func q ns (page v) (world v) = (r, w)" by (cases "func q ns (page v) (world v)")
  with Cons.prems have d: "delivered r = Some xs" and ne: "xs \<noteq> []"
    and rest: "map delivered (fetch_seq func q ns (Suc (page v)) (Suc (length xss)) w) = map Some xss @ [None]"
    by simp_all
  let ?v1 = "v\<lparr>page := Suc (page v), all_results := all_results v @ xs, world := w,
              calls := calls v @ [(page v, r)]\<rparr>"
  have "\<exists>v' e d. last (fetch_seq func q ns (page ?v1) (Suc (length xss)) (world ?v1)) = (e, d)
            \<and> doWhilst_rounds (Suc (length xss)) (callback_iteratee func q ns) callback_test cb ?v1 =
                (Some (if truthy e then cb e None v' else Uncaught TypeError), v')
            \<and> calls v' = calls ?v1 @ zip [page ?v1 ..< page ?v1 + Suc (length xss)]
                                  (fetch_seq func q ns (page ?v1) (Suc (length xss)) (world ?v1))"
    using rest Cons.prems(2,3) by (intro Cons.IH) simp_all
  then obtain v' e d where
    l: "last (fetch_seq func q ns (Suc (page v)) (Suc (length xss)) w) = (e, d)"
    and r: "doWhilst_rounds (Suc (length xss)) (callback_iteratee func q ns) callback_test cb ?v1 =
                (Some (if truthy e then cb e None v' else Uncaught TypeError), v')"
    and c: "calls v' = calls v @ (page v, r) # zip [Suc (page v) ..< Suc (page v) + Suc (length xss)]
                                  (fetch_seq func q ns (Suc (page v)) (Suc (length xss)) w)"
    by auto
  have "doWhilst_rounds (Suc (length (xs # xss))) (callback_iteratee func q ns) callback_test cb v =
          doWhilst_rounds (Suc (length xss)) (callback_iteratee func q ns) callback_test cb ?v1"
    using Cons.prems(3) by (simp add: iteratee_more[of func q ns v r w xs, OF f d ne] callback_test_def)
  moreover have "[page v ..< page v + Suc (length (xs # xss))] = page v # [Suc (page v) ..< Suc (page v) + Suc (length xss)]"
    using upt_conv_Cons[of "page v" "page v + Suc (length (xs # xss))"] by simp
  moreover have "last (fetch_seq func q ns (page v) (Suc (length (xs # xss))) (world v)) = (e, d)"
    using l f by (simp split: prod.splits)
  ultimately show ?case
    using r c f by (intro exI[of _ v'] exI[of _ e] exI[of _ d]) (simp del: upt_Suc)
qed


lemma doWhilst_rounds_aux:
  assumes "doWhilst it te cb v = Some y"
  shows "\<exists>n. doWhilst_rounds n it te cb v = (Some (fst y), snd y)"
proof (rule doWhilst.raw_induct[where P = "\<lambda>it te cb v y. \<exists>n. doWhilst_rounds n it te cb v = (Some (fst y), snd y)", OF _ assms], goal_cases)
  case (1 doWhilst' it te cb v y)
  show ?case
  proof (cases "it v")
    case (Pair r v1)
    show ?thesis
    proof (cases r)
      case (CbErr e)
      with Pair 1(2) have "doWhilst_rounds (Suc 0) it te cb v = (Some (fst y), snd y)" by auto
      then show ?thesis by blast
    next
      case (Thrown x)
      with Pair 1(2) have "doWhilst_rounds (Suc 0) it te cb v = (Some (fst y), snd y)" by auto
      then show ?thesis by blast
    next
      case (CbOk rs)
      show ?thesis
      proof (cases "te rs v1")
        case (CbErr e)
        with Pair CbOk 1(2) have "doWhilst_rounds (Suc 0) it te cb v = (Some (fst y), snd y)" by auto
        then show ?thesis by blast
      next
        case (Thrown x)
        with Pair CbOk 1(2) have "doWhilst_rounds (Suc 0) it te cb v = (Some (fst y), snd y)" by auto
        then show ?thesis by blast
      next
        case inner: (CbOk truth)
        show ?thesis
        proof (cases truth)
          case False
          with Pair CbOk inner 1(2) have "doWhilst_rounds (Suc 0) it te cb v = (Some (fst y), snd y)" by auto
          then show ?thesis by blast
        next
          case True
          with Pair CbOk inner 1(2) have "doWhilst' it te cb v1 = Some y" by simp
          then obtain n where "doWhilst_rounds n it te cb v1 = (Some (fst y), snd y)"
            using 1(1) by blast
          with Pair CbOk inner True have "doWhilst_rounds (Suc n) it te cb v = (Some (fst y), snd y)" by simp
          then show ?thesis by blast
        qed
      qed
    qed
  qed
qed


lemma running_in_sequence: "running v \<Longrightarrow> in_sequence (calls v)"
  by (auto simp: running_def in_sequence_def list_all_iff dest: in_set_butlastD)

lemma in_sequence_snoc:
  "running v \<Longrightarrow> in_sequence (calls v @ [(page v, r)])"
  by (auto simp: running_def in_sequence_def)

lemma running_snoc:
  "running v \<Longrightarrow> delivered_more r \<Longrightarrow> calls v' = calls v @ [(page v, r)] \<Longrightarrow> page v' = Suc (page v) \<Longrightarrow> running v'"
  by (auto simp: running_def)

lemma iteratee_calls:
  "callback_iteratee func q ns v = (res, v') \<Longrightarrow>
     \<exists>r. calls v' = calls v @ [(page v, r)] \<and>
       (case res of CbOk rs \<Rightarrow> page v' = Suc (page v) \<and> (has_next_page v' \<longrightarrow> delivered_more r) | _ \<Rightarrow> True)"
  by (auto simp: callback_iteratee_def Let_def split: prod.splits if_splits option.splits list.splits)

lemma rounds_Suc_again:
  "it v = (CbOk rs, v1) \<Longrightarrow> te rs v1 = CbOk True \<Longrightarrow>
     doWhilst_rounds (Suc n) it te cb v = doWhilst_rounds n it te cb v1"
  by simp

lemma rounds_in_sequence:
  assumes "running v" and "doWhilst_rounds n (callback_iteratee func q ns) callback_test cb v = (c, v')"
  shows "in_sequence (calls v') \<and> (c = None \<longrightarrow> running v')"
  using assms
proof (induction n arbitrary: v)
  case 0
  then show ?case by (simp add: running_in_sequence)
next
  case (Suc n)
  obtain res v1 where it: "callback_iteratee func q ns v = (res, v1)"
    by (cases "callback_iteratee func q ns v")
  from iteratee_calls[OF it] obtain r where
    c1: "calls v1 = calls v @ [(page v, r)]"
    and ok: "case res of CbOk rs \<Rightarrow> page v1 = Suc (page v) \<and> (has_next_page v1 \<longrightarrow> delivered_more r) | _ \<Rightarrow> True"
    by blast
  have seq1: "in_sequence (calls v1)"
    using in_sequence_snoc[OF Suc.prems(1)] c1 by simp
  show ?case
  proof (cases res)
    case (CbErr e)
    with it Suc.prems(2) seq1 show ?thesis by auto
  next
    case (Thrown x)
    with it Suc.prems(2) seq1 show ?thesis by auto
  next
    case (CbOk rs)
    show ?thesis
    proof (cases "has_next_page v1")
      case False
      with CbOk it Suc.prems(2) seq1 show ?thesis by (auto simp: callback_test_def)
    next
      case True
      with CbOk ok c1 Suc.prems(1) have "running v1" by (auto intro: running_snoc)
      moreover have "callback_test rs v1 = CbOk True"
        using True by (simp add: callback_test_def)
      with CbOk it Suc.prems(2)
      have "doWhilst_rounds n (callback_iteratee func q ns) callback_test cb v1 = (c, v')"
        by (simp only: rounds_Suc_again)
      ultimately show ?thesis by (rule Suc.IH)
    qed
  qed
qed

lemma doWhilst_iff_rounds:
  "doWhilst it te cb v = Some (c, v') \<longleftrightarrow> (\<exists>n. doWhilst_rounds n it te cb v = (Some c, v'))"
  using doWhilst_rounds_aux[of it te cb v "(c, v')"] rounds_doWhilst[of _ it te cb v c v'] by auto

lemma promise_iteratee_eq: "promise_iteratee = callback_iteratee"
  by (intro ext) (simp add: promise_iteratee_def callback_iteratee_def)

lemma promise_test_eq: "promise_test = callback_test"
  by (intro ext) (simp add: promise_test_def callback_test_def)

lemma promise_done_settle: "promise_done = (\<lambda>err rs v. settle (callback_done err rs v))"
  by (intro ext) (simp add: promise_done_def callback_done_def)

lemma rounds_settle:
  "doWhilst_rounds n it te (\<lambda>err rs v. settle (cb err rs v)) v =
     apfst (map_option settle) (doWhilst_rounds n it te cb v)"
proof (induction n arbitrary: v)
  case 0
  show ?case by simp
next
  case (Suc n)
  show ?case
    by (simp add: Suc.IH split: prod.splits cb_result.splits)
qed

lemma doWhilst_settle:
  "doWhilst it te (\<lambda>err rs v. settle (cb err rs v)) v = map_option (apfst settle) (doWhilst it te cb v)"
proof (cases "doWhilst it te cb v")
  case None
  have "doWhilst it te (\<lambda>err rs v. settle (cb err rs v)) v = None"
  proof (rule ccontr)
    assume "doWhilst it te (\<lambda>err rs v. settle (cb err rs v)) v \<noteq> None"
    then obtain c2 v2 where "doWhilst it te (\<lambda>err rs v. settle (cb err rs v)) v = Some (c2, v2)" by auto
    then obtain n where "doWhilst_rounds n it te (\<lambda>err rs v. settle (cb err rs v)) v = (Some c2, v2)"
      by (auto simp: doWhilst_iff_rounds)
    then obtain c1 where "doWhilst_rounds n it te cb v = (Some c1, v2)"
      by (cases "doWhilst_rounds n it te cb v") (auto simp: rounds_settle)
    then have "doWhilst it te cb v = Some (c1, v2)" by (rule rounds_doWhilst)
    with None show False by simp
  qed
  with None show ?thesis by simp
next
  case (Some y)
  obtain c1 v1 where y: "y = (c1, v1)" by (cases y)
  with Some obtain n where "doWhilst_rounds n it te cb v = (Some c1, v1)"
    by (auto simp: doWhilst_iff_rounds)
  then have "doWhilst_rounds n it te (\<lambda>err rs v. settle (cb err rs v)) v = (Some (settle c1), v1)"
    by (simp add: rounds_settle)
  then have "doWhilst it te (\<lambda>err rs v. settle (cb err rs v)) v = Some (settle c1, v1)"
    by (rule rounds_doWhilst)
  with Some y show ?thesis by simp
qed

lemma promise_as_callback:
  "make_query_all_promise_helper q ns osdf w =
     map_option (apfst settle) (make_query_all_callback_helper q ns osdf w)"
  unfolding make_query_all_promise_helper_def make_query_all_callback_helper_def Let_def
    promise_iteratee_eq promise_test_eq promise_done_settle
  by (rule doWhilst_settle)

lemma callback_helper_unfold:
  "make_query_all_callback_helper q ns osdf w =
     doWhilst (callback_iteratee (page_op osdf q) q ns) callback_test callback_done (initial_vars w)"
  by (simp add: make_query_all_callback_helper_def page_op_def initial_vars_def)

lemma initial_vars_simps:
  "page (initial_vars w) = 1" "has_next_page (initial_vars w)" "all_results (initial_vars w) = []"
  "world (initial_vars w) = w" "calls (initial_vars w) = []"
  by (simp_all add: initial_vars_def)

lemma running_initial: "running (initial_vars w)"
  by (simp add: running_def initial_vars_def)

lemma callback_helper_pages:
  assumes "map delivered (fetch_seq (page_op osdf q) q ns 1 (Suc (length xss)) w) = map Some xss @ [Some []]"
    and "\<forall>xs\<in>set xss. xs \<noteq> []"
  shows "\<exists>v. make_query_all_callback_helper q ns osdf w = Some (Callback JNull (final (concat xss)), v)
           \<and> all_results v = concat xss
           \<and> map fst (calls v) = [1 ..< Suc (Suc (length xss))]"
proof -
  from rounds_pages[of "page_op osdf q" q ns "initial_vars w" xss callback_done] assms
  obtain v' where
    r: "doWhilst_rounds (Suc (length xss)) (callback_iteratee (page_op osdf q) q ns) callback_test callback_done (initial_vars w) =
                (Some (callback_done JNull (Some (concat xss)) v'), v')"
    and a: "all_results v' = concat xss"
    and c: "calls v' = zip [1 ..< 1 + Suc (length xss)] (fetch_seq (page_op osdf q) q ns 1 (Suc (length xss)) w)"
    by (auto simp: initial_vars_simps)
  have len: "length (fetch_seq (page_op osdf q) q ns 1 (Suc (length xss)) w) = Suc (length xss)"
    using arg_cong[OF assms(1), of length] by simp
  have "map fst (calls v') = [1 ..< Suc (Suc (length xss))]"
    unfolding c using len by (simp del: upt_Suc fetch_seq.simps)
  moreover have "make_query_all_callback_helper q ns osdf w = Some (callback_done JNull (Some (concat xss)) v', v')"
    unfolding callback_helper_unfold using r by (rule rounds_doWhilst)
  ultimately show ?thesis using a by (auto simp: callback_done_def)
qed

section \<open>Results of the aggregation\<close>

text \<open>
  C1. When the selected page operation, asked for the pages 1, 2, \<open>\<dots>\<close> in turn, delivers
  the non-empty result lists \<open>xss\<close> and then an empty one, \<open>query_all\<close> and
  \<open>oql_query_all\<close> succeed in either style with the object whose \<open>results\<close> is the
  concatenation of \<open>xss\<close> in page order and whose \<open>result_count\<close> and
  \<open>search_result_total\<close> are both its length; the object has these three keys and no
  \<open>page\<close>.
\<close>

theorem aggregation_concatenates_pages:
  assumes "map delivered (fetch_seq (page_op osdf query) query namespace 1 (Suc (length xss)) w)
             = map Some xss @ [Some []]"
    and "[] \<notin> set xss"
  shows "(\<exists>v. query_all osdf query namespace cb w =
            Some ((if cb then Callback JNull else Resolve)
                    (JObj [(''search_result_total'', JNum (int (length (concat xss)))),
                           (''result_count'', JNum (int (length (concat xss)))),
                           (''results'', JArr (concat xss))]), v))
       \<and> (\<exists>v. oql_query_all osdf query namespace cb w =
            Some ((if cb then Callback JNull else Resolve)
                    (JObj [(''search_result_total'', JNum (int (length (concat xss)))),
                           (''result_count'', JNum (int (length (concat xss)))),
                           (''results'', JArr (concat xss))]), v))"
proof -
  from assms(2) have "\<forall>xs\<in>set xss. xs \<noteq> []" by auto
  from callback_helper_pages[OF assms(1) this] obtain v where
    c: "make_query_all_callback_helper query namespace osdf w = Some (Callback JNull (final (concat xss)), v)"
    by blast
  then have p: "make_query_all_promise_helper query namespace osdf w = Some (Resolve (final (concat xss)), v)"
    by (simp add: promise_as_callback)
  from c p show ?thesis
    by (cases cb) (simp_all add: query_all_def oql_query_all_def final_def)
qed

theorem aggregation_concatenates_pages_witness:
  "map delivered (fetch_seq (page_op \<lparr>oql_query_page = three_pages, query_page = three_pages\<rparr> (JStr ''q''))
       (JStr ''q'') ''ns'' 1 (Suc (length [[JStr ''a'', JStr ''b''], [JStr ''c'']])) 0)
     = map Some [[JStr ''a'', JStr ''b''], [JStr ''c'']] @ [Some []]
   \<and> [] \<notin> set [[JStr ''a'', JStr ''b''], [JStr ''c'']]
   \<and> (\<exists>v. query_all \<lparr>oql_query_page = three_pages, query_page = three_pages\<rparr> (JStr ''q'') ''ns'' True 0 =
            Some (Callback JNull
                    (JObj [(''search_result_total'', JNum 3), (''result_count'', JNum 3),
                           (''results'', JArr [JStr ''a'', JStr ''b'', JStr ''c''])]), v))"
proof -
  have h1: "map delivered (fetch_seq (page_op \<lparr>oql_query_page = three_pages, query_page = three_pages\<rparr> (JStr ''q''))
       (JStr ''q'') ''ns'' 1 (Suc (length [[JStr ''a'', JStr ''b''], [JStr ''c'']])) 0)
     = map Some [[JStr ''a'', JStr ''b''], [JStr ''c'']] @ [Some []]"
    by (simp add: page_op_def three_pages_def server_page_def)
  have h2: "[] \<notin> set [[JStr ''a'', JStr ''b''], [JStr ''c'']]" by simp
  from aggregation_concatenates_pages[OF h1 h2, of True] h1 h2 show ?thesis by simp
qed

lemma callback_helper_failure:
  assumes "map delivered (fetch_seq (page_op osdf q) q ns 1 (Suc (length xss)) w) = map Some xss @ [None]"
    and "\<forall>xs\<in>set xss. xs \<noteq> []"
  shows "\<exists>v e d. last (fetch_seq (page_op osdf q) q ns 1 (Suc (length xss)) w) = (e, d)
           \<and> make_query_all_callback_helper q ns osdf w =
               Some (if truthy e then Callback e JNull else Uncaught TypeError, v)
           \<and> map fst (calls v) = [1 ..< Suc (Suc (length xss))]"
proof -
  from rounds_failure[of "page_op osdf q" q ns "initial_vars w" xss callback_done] assms
  obtain v' e d where
    l: "last (fetch_seq (page_op osdf q) q ns 1 (Suc (length xss)) w) = (e, d)"
    and r: "doWhilst_rounds (Suc (length xss)) (callback_iteratee (page_op osdf q) q ns) callback_test callback_done (initial_vars w) =
                (Some (if truthy e then callback_done e None v' else Uncaught TypeError), v')"
    and c: "calls v' = zip [1 ..< 1 + Suc (length xss)] (fetch_seq (page_op osdf q) q ns 1 (Suc (length xss)) w)"
    by (auto simp: initial_vars_simps)
  have len: "length (fetch_seq (page_op osdf q) q ns 1 (Suc (length xss)) w) = Suc (length xss)"
    using arg_cong[OF assms(1), of length] by simp
  have "map fst (calls v') = [1 ..< Suc (Suc (length xss))]"
    unfolding c using len by (simp del: upt_Suc fetch_seq.simps)
  moreover have "make_query_all_callback_helper q ns osdf w =
      Some (if truthy e then callback_done e None v' else Uncaught TypeError, v')"
    unfolding callback_helper_unfold using r by (rule rounds_doWhilst)
  ultimately show ?thesis using l by (auto simp: callback_done_def)
qed

lemma fetch_seq_one:
  "fetch_seq F q ns p (Suc 0) w = [fst (F q ns p w)]"
  by (simp split: prod.splits)

text \<open>
  C6. When the first page fetch succeeds with an empty result list, the aggregation
  succeeds in either style and through either entry point with \<open>results = []\<close>,
  \<open>result_count = 0\<close> and \<open>search_result_total = 0\<close>. Exactly one fetch has been made:
  the log holds the call for page 1 with the answer it got and nothing else, and the
  outside world is in the state that this one request left it in.
\<close>

theorem first_page_empty:
  assumes "page_op osdf query query namespace 1 w = ((e, Some p), w')"
    and "\<not> truthy e"
    and "results p = []"
  shows "query_all osdf query namespace cb w =
           Some ((if cb then Callback JNull else Resolve)
                   (JObj [(''search_result_total'', JNum 0), (''result_count'', JNum 0),
                          (''results'', JArr [])]),
                 \<lparr>page = 2, has_next_page = False, all_results = [], world = w',
                  calls = [(1, e, Some p)]\<rparr>)
       \<and> oql_query_all osdf query namespace cb w =
           Some ((if cb then Callback JNull else Resolve)
                   (JObj [(''search_result_total'', JNum 0), (''result_count'', JNum 0),
                          (''results'', JArr [])]),
                 \<lparr>page = 2, has_next_page = False, all_results = [], world = w',
                  calls = [(1, e, Some p)]\<rparr>)"
proof -
  let ?v = "\<lparr>page = 2, has_next_page = False, all_results = [], world = w',
             calls = [(1, e, Some p)]\<rparr>"
  have f: "page_op osdf query query namespace (page (initial_vars w)) (world (initial_vars w))
             = ((e, Some p), w')"
    using assms(1) by (simp add: initial_vars_def)
  have d: "delivered (e, Some p) = Some []"
    using assms(2,3) by simp
  have it: "callback_iteratee (page_op osdf query) query namespace (initial_vars w) = (CbOk [], ?v)"
    using iteratee_last[of "page_op osdf query" query namespace "initial_vars w" "(e, Some p)" w', OF f d]
    by (simp add: initial_vars_def)
  have c: "make_query_all_callback_helper query namespace osdf w = Some (Callback JNull (final []), ?v)"
    unfolding callback_helper_unfold
    by (subst doWhilst.simps) (simp add: it callback_test_def callback_done_def)
  then have p: "make_query_all_promise_helper query namespace osdf w = Some (Resolve (final []), ?v)"
    by (simp add: promise_as_callback)
  from c p show ?thesis
    by (cases cb) (simp_all add: query_all_def oql_query_all_def final_def)
qed

theorem first_page_empty_witness:
  "page_op \<lparr>oql_query_page = no_results, query_page = no_results\<rparr> (JObj []) (JObj []) ''ns'' 1 0
     = ((JNull, Some (server_page 0 1 [])), 1)
   \<and> \<not> truthy JNull
   \<and> results (server_page 0 1 []) = []
   \<and> query_all \<lparr>oql_query_page = no_results, query_page = no_results\<rparr> (JObj []) ''ns'' False 0 =
       Some (Resolve (JObj [(''search_result_total'', JNum 0), (''result_count'', JNum 0),
                            (''results'', JArr [])]),
             \<lparr>page = 2, has_next_page = False, all_results = [], world = 1,
              calls = [(1, JNull, Some (server_page 0 1 []))]\<rparr>)"
proof -
  have h1: "page_op \<lparr>oql_query_page = no_results, query_page = no_results\<rparr> (JObj []) (JObj []) ''ns'' 1 0
     = ((JNull, Some (server_page 0 1 [])), 1)"
    by (simp add: page_op_def no_results_def)
  have h2: "\<not> truthy JNull" by simp
  have h3: "results (server_page 0 1 []) = []" by (simp add: server_page_def)
  from first_page_empty[OF h1 h2 h3, of False] h1 h2 h3 show ?thesis by simp
qed

lemma calls_upto:
  assumes "map fst cs = [1 ..< Suc (Suc n)]"
  shows "length cs = Suc n" and "fst (last cs) = Suc n"
proof -
  have "length cs = length (map fst cs)" by simp
  also have "\<dots> = Suc n" by (simp only: assms length_upt)
  finally show len: "length cs = Suc n" .
  then have "cs \<noteq> []" by auto
  then have "fst (last cs) = last (map fst cs)" by (simp add: last_map)
  also have "\<dots> = Suc n" by (simp only: assms) simp
  finally show "fst (last cs) = Suc n" .
qed

text \<open>
  C4. When the pages 1 to \<open>k - 1\<close> deliver the non-empty lists \<open>xss\<close> and page \<open>k\<close>
  delivers an empty list, the loop ends and has fetched \<open>length xss + 1\<close> times. When
  instead the fetch after the non-empty pages \<open>xss\<close> delivers nothing (a truthy error, or
  a \<open>null\<close> page), the loop ends as well, and the number of fetches is the number of
  that page, which is the last one requested.
\<close>

theorem fetch_count:
  assumes "[] \<notin> set xss"
  shows "(map delivered (fetch_seq (page_op osdf q) q ns 1 (Suc (length xss)) w) = map Some xss @ [Some []]
            \<longrightarrow> (\<exists>c v. make_query_all_callback_helper q ns osdf w = Some (c, v)
                    \<and> length (calls v) = length xss + 1))
       \<and> (map delivered (fetch_seq (page_op osdf q) q ns 1 (Suc (length xss)) w) = map Some xss @ [None]
            \<longrightarrow> (\<exists>c v. make_query_all_callback_helper q ns osdf w = Some (c, v)
                    \<and> length (calls v) = Suc (length xss)
                    \<and> fst (last (calls v)) = Suc (length xss)))"
proof (intro conjI impI)
  from assms have ne: "\<forall>xs\<in>set xss. xs \<noteq> []" by auto
  {
    assume "map delivered (fetch_seq (page_op osdf q) q ns 1 (Suc (length xss)) w) = map Some xss @ [Some []]"
    from callback_helper_pages[OF this ne] obtain v where
      "make_query_all_callback_helper q ns osdf w = Some (Callback JNull (final (concat xss)), v)"
      and "map fst (calls v) = [1 ..< Suc (Suc (length xss))]"
      by blast
    moreover from calls_upto(1)[OF this(2)] have "length (calls v) = length xss + 1"
      by simp
    ultimately show "\<exists>c v. make_query_all_callback_helper q ns osdf w = Some (c, v)
                    \<and> length (calls v) = length xss + 1"
      by blast
  }
  {
    assume "map delivered (fetch_seq (page_op osdf q) q ns 1 (Suc (length xss)) w) = map Some xss @ [None]"
    from callback_helper_failure[OF this ne] obtain v c where
      h: "make_query_all_callback_helper q ns osdf w = Some (c, v)"
      and m: "map fst (calls v) = [1 ..< Suc (Suc (length xss))]"
      by blast
    from calls_upto[OF m] have len: "length (calls v) = Suc (length xss)"
      and "fst (last (calls v)) = Suc (length xss)" by simp_all
    then show "\<exists>c v. make_query_all_callback_helper q ns osdf w = Some (c, v)
                    \<and> length (calls v) = Suc (length xss)
                    \<and> fst (last (calls v)) = Suc (length xss)"
      using h len by blast
  }
qed


theorem fetch_count_witness:
  "[] \<notin> set [[JStr ''a'', JStr ''b''], [JStr ''c'']]
   \<and> map delivered (fetch_seq (page_op \<lparr>oql_query_page = three_pages, query_page = three_pages\<rparr> (JObj []))
          (JObj []) ''ns'' 1 (Suc (length [[JStr ''a'', JStr ''b''], [JStr ''c'']])) 0)
        = map Some [[JStr ''a'', JStr ''b''], [JStr ''c'']] @ [Some []]
   \<and> (\<exists>c v. make_query_all_callback_helper (JObj []) ''ns''
                \<lparr>oql_query_page = three_pages, query_page = three_pages\<rparr> 0 = Some (c, v)
              \<and> length (calls v) = 3)
   \<and> [] \<notin> set [[JStr ''a'', JStr ''b'']]
   \<and> map delivered (fetch_seq (page_op \<lparr>oql_query_page = refused_second, query_page = refused_second\<rparr> (JObj []))
          (JObj []) ''ns'' 1 (Suc (length [[JStr ''a'', JStr ''b'']])) 0)
        = map Some [[JStr ''a'', JStr ''b'']] @ [None]
   \<and> (\<exists>c v. make_query_all_callback_helper (JObj []) ''ns''
                \<lparr>oql_query_page = refused_second, query_page = refused_second\<rparr> 0 = Some (c, v)
              \<and> length (calls v) = 2 \<and> fst (last (calls v)) = 2)"
proof -
  have a1: "[] \<notin> set [[JStr ''a'', JStr ''b''], [JStr ''c'']]" by simp
  have a2: "map delivered (fetch_seq (page_op \<lparr>oql_query_page = three_pages, query_page = three_pages\<rparr> (JObj []))
          (JObj []) ''ns'' 1 (Suc (length [[JStr ''a'', JStr ''b''], [JStr ''c'']])) 0)
        = map Some [[JStr ''a'', JStr ''b''], [JStr ''c'']] @ [Some []]"
    by (simp add: page_op_def three_pages_def server_page_def)
  have b1: "[] \<notin> set [[JStr ''a'', JStr ''b'']]" by simp
  have b2: "map delivered (fetch_seq (page_op \<lparr>oql_query_page = refused_second, query_page = refused_second\<rparr> (JObj []))
          (JObj []) ''ns'' 1 (Suc (length [[JStr ''a'', JStr ''b'']])) 0)
        = map Some [[JStr ''a'', JStr ''b'']] @ [None]"
    by (simp add: page_op_def refused_second_def server_page_def)
  from mp[OF conjunct1[OF fetch_count[OF a1, of "\<lparr>oql_query_page = three_pages, query_page = three_pages\<rparr>" "JObj []" "''ns''" 0]] a2]
  have a3: "\<exists>c v. make_query_all_callback_helper (JObj []) ''ns''
                \<lparr>oql_query_page = three_pages, query_page = three_pages\<rparr> 0 = Some (c, v)
              \<and> length (calls v) = 3"
    by (simp add: eval_nat_numeral)
  from mp[OF conjunct2[OF fetch_count[OF b1, of "\<lparr>oql_query_page = refused_second, query_page = refused_second\<rparr>" "JObj []" "''ns''" 0]] b2]
  have b3: "\<exists>c v. make_query_all_callback_helper (JObj []) ''ns''
                \<lparr>oql_query_page = refused_second, query_page = refused_second\<rparr> 0 = Some (c, v)
              \<and> length (calls v) = 2 \<and> fst (last (calls v)) = 2"
    by (simp add: eval_nat_numeral)
  from a1 a2 a3 b1 b2 b3 show ?thesis by blast
qed

lemma in_sequence_distinct: "in_sequence cs \<Longrightarrow> distinct (map fst cs)"
  by (simp add: in_sequence_def)

text \<open>
  C3. For every query, client and outside world: after any number of rounds of the
  loop, and when the helper has completed, the page numbers passed to the page
  operation are exactly \<open>1, 2, 3, \<dots>\<close> up to the number of calls made, without repeat or
  gap, and every call but the last one delivered a non-empty result list (so the fetch
  of page \<open>n + 1\<close> follows a successful, non-empty fetch of page \<open>n\<close>).
\<close>

theorem page_numbers_in_sequence:
  "in_sequence (calls (snd (callback_helper_rounds n q ns osdf w)))
   \<and> distinct (map fst (calls (snd (callback_helper_rounds n q ns osdf w))))
   \<and> (\<forall>c v. make_query_all_callback_helper q ns osdf w = Some (c, v)
          \<longrightarrow> in_sequence (calls v) \<and> distinct (map fst (calls v)))"
proof -
  have r: "in_sequence (calls v)"
    if "doWhilst_rounds m (callback_iteratee (page_op osdf q) q ns) callback_test callback_done (initial_vars w) = (c, v)"
    for m c v
    using rounds_in_sequence[OF running_initial that] by simp
  have 1: "in_sequence (calls (snd (callback_helper_rounds n q ns osdf w)))"
    unfolding callback_helper_rounds_def
    by (rule r[of n "fst (doWhilst_rounds n (callback_iteratee (page_op osdf q) q ns) callback_test callback_done (initial_vars w))"]) simp
  have 2: "in_sequence (calls v)" if "make_query_all_callback_helper q ns osdf w = Some (c, v)" for c v
  proof -
    from that obtain m where
      "doWhilst_rounds m (callback_iteratee (page_op osdf q) q ns) callback_test callback_done (initial_vars w) = (Some c, v)"
      unfolding callback_helper_unfold doWhilst_iff_rounds by blast
    then show ?thesis by (rule r)
  qed
  from 1 2 show ?thesis by (auto dest: in_sequence_distinct)
qed

theorem page_numbers_in_sequence_witness:
  "map fst (calls (snd (callback_helper_rounds 3 (JObj []) ''ns'' \<lparr>oql_query_page = endless, query_page = endless\<rparr> 0)))
     = [1, 2, 3]
   \<and> fst (callback_helper_rounds 3 (JObj []) ''ns'' \<lparr>oql_query_page = endless, query_page = endless\<rparr> 0) = None
   \<and> in_sequence (calls (snd (callback_helper_rounds 3 (JObj []) ''ns'' \<lparr>oql_query_page = endless, query_page = endless\<rparr> 0)))
   \<and> (\<exists>c v. make_query_all_callback_helper (JObj []) ''ns'' \<lparr>oql_query_page = refused_second, query_page = refused_second\<rparr> 0
                = Some (c, v) \<and> map fst (calls v) = [1, 2] \<and> in_sequence (calls v))"
proof -
  have e: "callback_helper_rounds 3 (JObj []) ''ns'' \<lparr>oql_query_page = endless, query_page = endless\<rparr> 0
      = (None, \<lparr>page = 4, has_next_page = True, all_results = [JNum 1, JNum 2, JNum 3], world = 3,
                calls = [(1, JNull, Some (server_page 1 1 [JNum 1])), (2, JNull, Some (server_page 1 2 [JNum 2])),
                         (3, JNull, Some (server_page 1 3 [JNum 3]))]\<rparr>)"
    by (simp add: callback_helper_rounds_def eval_nat_numeral initial_vars_def page_op_def
        callback_iteratee_def callback_test_def endless_def server_page_def)
  have f: "make_query_all_callback_helper (JObj []) ''ns'' \<lparr>oql_query_page = refused_second, query_page = refused_second\<rparr> 0
      = Some (Callback (JStr ''Forbidden'') JNull,
              \<lparr>page = 2, has_next_page = True, all_results = [JStr ''a'', JStr ''b''], world = 2,
                calls = [(1, JNull, Some (server_page 3 1 [JStr ''a'', JStr ''b''])), (2, JStr ''Forbidden'', None)]\<rparr>)"
    by (simp add: make_query_all_callback_helper_def doWhilst.simps callback_iteratee_def
        callback_test_def callback_done_def refused_second_def server_page_def)
  from page_numbers_in_sequence[of 3 "JObj []" "''ns''" "\<lparr>oql_query_page = endless, query_page = endless\<rparr>" 0]
    page_numbers_in_sequence[of 0 "JObj []" "''ns''" "\<lparr>oql_query_page = refused_second, query_page = refused_second\<rparr>" 0]
    e f
  show ?thesis by simp
qed

lemma iteratee_shape:
  "callback_iteratee F q ns v = (res, v') \<Longrightarrow>
     (case res of CbErr e \<Rightarrow> truthy e | Thrown x \<Rightarrow> x = TypeError | CbOk rs \<Rightarrow> rs = all_results v')"
  by (auto simp: callback_iteratee_def Let_def split: prod.splits if_splits option.splits)

lemma rounds_shape:
  "doWhilst_rounds n (callback_iteratee F q ns) callback_test callback_done v = (Some c, v') \<Longrightarrow>
     c = Callback JNull (final (all_results v')) \<or> (\<exists>e. truthy e \<and> c = Callback e JNull)
       \<or> c = Uncaught TypeError"
proof (induction n arbitrary: v)
  case 0
  then show ?case by simp
next
  case (Suc n)
  obtain res v1 where it: "callback_iteratee F q ns v = (res, v1)"
    by (cases "callback_iteratee F q ns v")
  note sh = iteratee_shape[OF it]
  show ?case
  proof (cases res)
    case (CbErr e)
    with it sh Suc.prems show ?thesis by (auto simp: callback_done_def)
  next
    case (Thrown x)
    with it sh Suc.prems show ?thesis by auto
  next
    case (CbOk rs)
    show ?thesis
    proof (cases "has_next_page v1")
      case True
      then have "callback_test rs v1 = CbOk True" by (simp add: callback_test_def)
      with CbOk it Suc.prems
      have "doWhilst_rounds n (callback_iteratee F q ns) callback_test callback_done v1 = (Some c, v')"
        by (simp only: rounds_Suc_again)
      then show ?thesis by (rule Suc.IH)
    next
      case False
      with CbOk it Suc.prems show ?thesis by (auto simp: callback_test_def callback_done_def)
    qed
  qed
qed

lemma callback_helper_shape:
  assumes "make_query_all_callback_helper q ns osdf w = Some (c, v)"
  shows "c = Callback JNull (final (all_results v)) \<or> (\<exists>e. truthy e \<and> c = Callback e JNull)
       \<or> c = Uncaught TypeError"
proof -
  from assms obtain n where
    "doWhilst_rounds n (callback_iteratee (page_op osdf q) q ns) callback_test callback_done (initial_vars w) = (Some c, v)"
    unfolding callback_helper_unfold doWhilst_iff_rounds by blast
  then show ?thesis by (rule rounds_shape)
qed

lemma final_inject: "final rs = final rs' \<longleftrightarrow> rs = rs'"
  by (auto simp: final_def)

text \<open>
  C7. For every query, client and outside world, the promise helper ends exactly as the
  callback helper does, read in the promise convention: neither ends or both do, with
  the same call log and final variables; the callback receives \<open>(null, final)\<close> exactly
  when the promise resolves with the same \<open>final\<close> object, it receives \<open>(e, null)\<close> for
  a truthy \<open>e\<close> exactly when the promise rejects with \<open>e\<close>, and an exception escapes in
  the one exactly when it does in the other.
\<close>

theorem callback_promise_equivalent:
  "make_query_all_promise_helper q ns osdf w =
     map_option (apfst settle) (make_query_all_callback_helper q ns osdf w)
   \<and> (make_query_all_callback_helper q ns osdf w = None
        \<longleftrightarrow> make_query_all_promise_helper q ns osdf w = None)
   \<and> (\<forall>rs v. make_query_all_callback_helper q ns osdf w = Some (Callback JNull (final rs), v)
          \<longleftrightarrow> make_query_all_promise_helper q ns osdf w = Some (Resolve (final rs), v))
   \<and> (\<forall>e v. truthy e \<longrightarrow>
          (make_query_all_callback_helper q ns osdf w = Some (Callback e JNull, v)
            \<longleftrightarrow> make_query_all_promise_helper q ns osdf w = Some (Reject e, v)))
   \<and> (\<forall>x v. make_query_all_callback_helper q ns osdf w = Some (Uncaught x, v)
          \<longleftrightarrow> make_query_all_promise_helper q ns osdf w = Some (Uncaught x, v))"
proof (cases "make_query_all_callback_helper q ns osdf w")
  case None
  then show ?thesis by (simp add: promise_as_callback)
next
  case (Some y)
  obtain c v where y: "y = (c, v)" by (cases y)
  from callback_helper_shape[OF Some[unfolded y]]
  consider "c = Callback JNull (final (all_results v))" | e where "truthy e" "c = Callback e JNull"
    | "c = Uncaught TypeError"
    by blast
  then show ?thesis
  proof cases
    case 1
    with Some y show ?thesis by (auto simp: promise_as_callback final_inject)
  next
    case 2
    with Some y show ?thesis by (auto simp: promise_as_callback)
  next
    case 3
    with Some y show ?thesis by (auto simp: promise_as_callback)
  qed
qed

theorem callback_promise_equivalent_witness:
  "map_option fst (make_query_all_callback_helper (JStr ''q'') ''ns''
       \<lparr>oql_query_page = refused_second, query_page = refused_second\<rparr> 0)
     = Some (Callback (JStr ''Forbidden'') JNull)
   \<and> map_option fst (make_query_all_promise_helper (JStr ''q'') ''ns''
       \<lparr>oql_query_page = refused_second, query_page = refused_second\<rparr> 0)
     = Some (Reject (JStr ''Forbidden''))"
proof -
  have f: "make_query_all_callback_helper (JStr ''q'') ''ns'' \<lparr>oql_query_page = refused_second, query_page = refused_second\<rparr> 0
      = Some (Callback (JStr ''Forbidden'') JNull,
              \<lparr>page = 2, has_next_page = True, all_results = [JStr ''a'', JStr ''b''], world = 2,
                calls = [(1, JNull, Some (server_page 3 1 [JStr ''a'', JStr ''b''])), (2, JStr ''Forbidden'', None)]\<rparr>)"
    by (simp add: make_query_all_callback_helper_def doWhilst.simps callback_iteratee_def
        callback_test_def callback_done_def refused_second_def server_page_def)
  from callback_promise_equivalent[of "JStr ''q''" "''ns''" "\<lparr>oql_query_page = refused_second, query_page = refused_second\<rparr>" 0] f
  show ?thesis by simp
qed

lemma iteratee_world:
  assumes "\<forall>p w w'. fst (F q ns p w) = fst (F q ns p w')"
  shows "callback_iteratee F q ns (v\<lparr>world := w'\<rparr>) =
           (case callback_iteratee F q ns v of
              (res, v1) \<Rightarrow> (res, v1\<lparr>world := snd (F q ns (page v) w')\<rparr>))"
proof -
  obtain r wa where a: "F q ns (page v) (world v) = (r, wa)" by (cases "F q ns (page v) (world v)")
  obtain r' wb where b: "F q ns (page v) w' = (r', wb)" by (cases "F q ns (page v) w'")
  from assms a b have "r' = r" by (metis fst_conv)
  with a b show ?thesis
    by (cases r) (simp add: callback_iteratee_def Let_def split: option.splits)
qed

lemma rounds_world:
  assumes "\<forall>p w w'. fst (F q ns p w) = fst (F q ns p w')"
  shows "\<exists>w''. doWhilst_rounds n (callback_iteratee F q ns) callback_test callback_done (v\<lparr>world := w'\<rparr>) =
           (case doWhilst_rounds n (callback_iteratee F q ns) callback_test callback_done v of
              (c, v1) \<Rightarrow> (c, v1\<lparr>world := w''\<rparr>))"
proof (induction n arbitrary: v w')
  case 0
  show ?case by auto
next
  case (Suc n)
  obtain res v1 where it: "callback_iteratee F q ns v = (res, v1)"
    by (cases "callback_iteratee F q ns v")
  let ?x = "snd (F q ns (page v) w')"
  have it': "callback_iteratee F q ns (v\<lparr>world := w'\<rparr>) = (res, v1\<lparr>world := ?x\<rparr>)"
    using iteratee_world[where F=F and q=q and ns=ns and v=v and w'=w', OF assms] it by simp
  show ?case
  proof (cases res)
    case (CbErr e)
    with it it' show ?thesis by (auto simp: callback_done_def)
  next
    case (Thrown x)
    with it it' show ?thesis by auto
  next
    case (CbOk rs)
    show ?thesis
    proof (cases "has_next_page v1")
      case False
      with CbOk it it' show ?thesis by (auto simp: callback_test_def callback_done_def)
    next
      case True
      then have t: "callback_test rs v1 = CbOk True" "callback_test rs (v1\<lparr>world := ?x\<rparr>) = CbOk True"
        by (simp_all add: callback_test_def)
      from Suc.IH[where v=v1 and w'="?x"] obtain w'' where
        "doWhilst_rounds n (callback_iteratee F q ns) callback_test callback_done (v1\<lparr>world := ?x\<rparr>) =
           (case doWhilst_rounds n (callback_iteratee F q ns) callback_test callback_done v1 of
              (c, v2) \<Rightarrow> (c, v2\<lparr>world := w''\<rparr>))"
        by blast
      then show ?thesis
        using CbOk it it' t by (intro exI[of _ w'']) (simp only: rounds_Suc_again)
    qed
  qed
qed

lemma callback_helper_world:
  assumes "\<forall>p w w'. fst (page_op osdf q q ns p w) = fst (page_op osdf q q ns p w')"
    and "make_query_all_callback_helper q ns osdf w1 = Some (c, v)"
  shows "\<exists>v'. make_query_all_callback_helper q ns osdf w2 = Some (c, v')"
proof -
  from assms(2) obtain n where
    r: "doWhilst_rounds n (callback_iteratee (page_op osdf q) q ns) callback_test callback_done (initial_vars w1) = (Some c, v)"
    unfolding callback_helper_unfold doWhilst_iff_rounds by blast
  have "initial_vars w2 = (initial_vars w1)\<lparr>world := w2\<rparr>" by (simp add: initial_vars_def)
  with rounds_world[where F="page_op osdf q" and q=q and ns=ns and n=n and v="initial_vars w1" and w'=w2, OF assms(1)] r obtain w'' where
    "doWhilst_rounds n (callback_iteratee (page_op osdf q) q ns) callback_test callback_done (initial_vars w2)
       = (Some c, v\<lparr>world := w''\<rparr>)"
    by auto
  then have "make_query_all_callback_helper q ns osdf w2 = Some (c, v\<lparr>world := w''\<rparr>)"
    unfolding callback_helper_unfold by (rule rounds_doWhilst)
  then show ?thesis by blast
qed

lemma callback_helper_deterministic:
  assumes "\<forall>p w w'. fst (page_op osdf q q ns p w) = fst (page_op osdf q q ns p w')"
  shows "map_option fst (make_query_all_callback_helper q ns osdf w1) =
         map_option fst (make_query_all_callback_helper q ns osdf w2)"
proof (cases "make_query_all_callback_helper q ns osdf w1")
  case None
  show ?thesis
  proof (cases "make_query_all_callback_helper q ns osdf w2")
    case inner: None
    with None show ?thesis by simp
  next
    case (Some y)
    then have "make_query_all_callback_helper q ns osdf w2 = Some (fst y, snd y)" by simp
    from callback_helper_world[OF assms this, of w1] None show ?thesis by simp
  qed
next
  case (Some y)
  then have "make_query_all_callback_helper q ns osdf w1 = Some (fst y, snd y)" by simp
  from callback_helper_world[OF assms this, of w2] Some show ?thesis by auto
qed

text \<open>
  C8. When what the selected page operation passes to its callback does not depend on
  the state of the outside world (each page number always yields the same answer), any
  two invocations of the aggregation, from whatever states, end with the same
  completion: the same results and counts, the same error, or no completion at all in
  both.
\<close>

theorem aggregation_deterministic:
  assumes "\<forall>p w w'. fst (page_op osdf q q ns p w) = fst (page_op osdf q q ns p w')"
  shows "map_option fst (make_query_all_promise_helper q ns osdf w1) =
           map_option fst (make_query_all_promise_helper q ns osdf w2)
       \<and> map_option fst (make_query_all_callback_helper q ns osdf w1) =
           map_option fst (make_query_all_callback_helper q ns osdf w2)"
proof -
  have "map_option fst (make_query_all_promise_helper q ns osdf w) =
          map_option settle (map_option fst (make_query_all_callback_helper q ns osdf w))" for w
    by (simp add: promise_as_callback option.map_comp comp_def split_beta)
  with callback_helper_deterministic[OF assms, of w1 w2] show ?thesis by simp
qed

theorem aggregation_deterministic_witness:
  "fst (page_op \<lparr>oql_query_page = three_pages, query_page = three_pages\<rparr> (JStr ''q'') (JStr ''q'') ''ns'' 2 0)
     = fst (page_op \<lparr>oql_query_page = three_pages, query_page = three_pages\<rparr> (JStr ''q'') (JStr ''q'') ''ns'' 2 7)
   \<and> map_option fst (make_query_all_promise_helper (JStr ''q'') ''ns''
        \<lparr>oql_query_page = three_pages, query_page = three_pages\<rparr> 0)
     = Some (Resolve (JObj [(''search_result_total'', JNum 3), (''result_count'', JNum 3),
                            (''results'', JArr [JStr ''a'', JStr ''b'', JStr ''c''])]))
   \<and> map_option fst (make_query_all_promise_helper (JStr ''q'') ''ns''
        \<lparr>oql_query_page = three_pages, query_page = three_pages\<rparr> 7)
     = Some (Resolve (JObj [(''search_result_total'', JNum 3), (''result_count'', JNum 3),
                            (''results'', JArr [JStr ''a'', JStr ''b'', JStr ''c''])]))"
proof -
  have h: "\<forall>p w w'. fst (page_op \<lparr>oql_query_page = three_pages, query_page = three_pages\<rparr> (JStr ''q'') (JStr ''q'') ''ns'' p w)
     = fst (page_op \<lparr>oql_query_page = three_pages, query_page = three_pages\<rparr> (JStr ''q'') (JStr ''q'') ''ns'' p w')"
    by (simp add: page_op_def three_pages_def)
  have f: "map_option fst (make_query_all_promise_helper (JStr ''q'') ''ns''
        \<lparr>oql_query_page = three_pages, query_page = three_pages\<rparr> 0)
     = Some (Resolve (JObj [(''search_result_total'', JNum 3), (''result_count'', JNum 3),
                            (''results'', JArr [JStr ''a'', JStr ''b'', JStr ''c''])]))"
    by (simp add: make_query_all_promise_helper_def doWhilst.simps promise_iteratee_def
        promise_test_def promise_done_def three_pages_def server_page_def final_def)
  from aggregation_deterministic[OF h, of 0 7] f h show ?thesis by simp
qed

lemma truthy_error_propagates:
  assumes "map delivered (fetch_seq (page_op osdf q) q ns 1 (Suc (length xss)) w) = map Some xss @ [None]"
    and "[] \<notin> set xss"
    and "last (fetch_seq (page_op osdf q) q ns 1 (Suc (length xss)) w) = (e, d)"
    and "truthy e"
  shows "\<exists>v. make_query_all_callback_helper q ns osdf w = Some (Callback e JNull, v)
           \<and> make_query_all_promise_helper q ns osdf w = Some (Reject e, v)
           \<and> map fst (calls v) = [1 ..< Suc (Suc (length xss))]"
proof -
  from assms(2) have "\<forall>xs\<in>set xss. xs \<noteq> []" by auto
  from callback_helper_failure[OF assms(1) this] assms(3,4) obtain v where
    c: "make_query_all_callback_helper q ns osdf w = Some (Callback e JNull, v)"
    and m: "map fst (calls v) = [1 ..< Suc (Suc (length xss))]"
    by auto
  from c assms(4) have "make_query_all_promise_helper q ns osdf w = Some (Reject e, v)"
    by (simp add: promise_as_callback)
  with c m show ?thesis by blast
qed

lemma falsy_error_throws:
  assumes "map delivered (fetch_seq (page_op osdf q) q ns 1 (Suc (length xss)) w) = map Some xss @ [None]"
    and "[] \<notin> set xss"
    and "last (fetch_seq (page_op osdf q) q ns 1 (Suc (length xss)) w) = (e, d)"
    and "\<not> truthy e"
  shows "\<exists>v. make_query_all_callback_helper q ns osdf w = Some (Uncaught TypeError, v)
           \<and> make_query_all_promise_helper q ns osdf w = Some (Uncaught TypeError, v)
           \<and> map fst (calls v) = [1 ..< Suc (Suc (length xss))]"
proof -
  from assms(2) have "\<forall>xs\<in>set xss. xs \<noteq> []" by auto
  from callback_helper_failure[OF assms(1) this] assms(3,4) obtain v where
    c: "make_query_all_callback_helper q ns osdf w = Some (Uncaught TypeError, v)"
    and m: "map fst (calls v) = [1 ..< Suc (Suc (length xss))]"
    by auto
  from c have "make_query_all_promise_helper q ns osdf w = Some (Uncaught TypeError, v)"
    by (simp add: promise_as_callback)
  with c m show ?thesis by blast
qed

text \<open>
  C2. The claim fails on the code for an error value that is falsy. An error status
  with an empty \<open>x-osdf-error\<close> header, or with no such header and an empty reason
  phrase, makes \<open>make_regular_cb\<close> call back with \<open>('', null)\<close>. When page 1 delivered
  \<open>[a, b]\<close> and the fetch of page 2 fails this way, neither helper fails with that
  error: \<open>if (err)\<close> takes the success branch, reading \<open>results\<close> of the \<open>null\<close> page
  throws a \<open>TypeError\<close>, and the caller is never notified. (No further page is
  fetched; the two lemmas above show every truthy error passed on unchanged and every
  falsy one lost this way.)
\<close>

theorem falsy_error_not_propagated:
  "make_regular_cb toString JSON_parse
       \<lparr>statusCode = 500, headers = [''x-osdf-error'' \<mapsto> JStr []],
        statusMessage = Some (JStr ''Internal Server Error''), chunks = []\<rparr>
     = Callback (JStr []) JNull
   \<and> make_regular_cb toString JSON_parse
       \<lparr>statusCode = 500, headers = Map.empty, statusMessage = Some (JStr []), chunks = []\<rparr>
     = Callback (JStr []) JNull
   \<and> fetch_seq unnamed_failure_second (JObj []) ''ns'' 1 2 0
     = [(JNull, Some (server_page 3 1 [JStr ''a'', JStr ''b''])), (JStr [], None)]
   \<and> make_query_all_promise_helper (JObj []) ''ns''
       \<lparr>oql_query_page = unnamed_failure_second, query_page = unnamed_failure_second\<rparr> 0
     = Some (Uncaught TypeError,
             \<lparr>page = 3, has_next_page = True, all_results = [JStr ''a'', JStr ''b''], world = 2,
              calls = [(1, JNull, Some (server_page 3 1 [JStr ''a'', JStr ''b''])), (2, JStr [], None)]\<rparr>)
   \<and> make_query_all_callback_helper (JObj []) ''ns''
       \<lparr>oql_query_page = unnamed_failure_second, query_page = unnamed_failure_second\<rparr> 0
     = Some (Uncaught TypeError,
             \<lparr>page = 3, has_next_page = True, all_results = [JStr ''a'', JStr ''b''], world = 2,
              calls = [(1, JNull, Some (server_page 3 1 [JStr ''a'', JStr ''b''])), (2, JStr [], None)]\<rparr>)"
proof (intro conjI)
  show "make_regular_cb toString JSON_parse
       \<lparr>statusCode = 500, headers = [''x-osdf-error'' \<mapsto> JStr []],
        statusMessage = Some (JStr ''Internal Server Error''), chunks = []\<rparr>
     = Callback (JStr []) JNull"
    by (simp add: make_regular_cb_def)
  show "make_regular_cb toString JSON_parse
       \<lparr>statusCode = 500, headers = Map.empty, statusMessage = Some (JStr []), chunks = []\<rparr>
     = Callback (JStr []) JNull"
    by (simp add: make_regular_cb_def)
  show "fetch_seq unnamed_failure_second (JObj []) ''ns'' 1 2 0
     = [(JNull, Some (server_page 3 1 [JStr ''a'', JStr ''b''])), (JStr [], None)]"
    by (simp add: eval_nat_numeral unnamed_failure_second_def)
  show "make_query_all_promise_helper (JObj []) ''ns''
       \<lparr>oql_query_page = unnamed_failure_second, query_page = unnamed_failure_second\<rparr> 0
     = Some (Uncaught TypeError,
             \<lparr>page = 3, has_next_page = True, all_results = [JStr ''a'', JStr ''b''], world = 2,
              calls = [(1, JNull, Some (server_page 3 1 [JStr ''a'', JStr ''b''])), (2, JStr [], None)]\<rparr>)"
    by (simp add: make_query_all_promise_helper_def doWhilst.simps promise_iteratee_def
        promise_test_def promise_done_def unnamed_failure_second_def server_page_def)
  show "make_query_all_callback_helper (JObj []) ''ns''
       \<lparr>oql_query_page = unnamed_failure_second, query_page = unnamed_failure_second\<rparr> 0
     = Some (Uncaught TypeError,
             \<lparr>page = 3, has_next_page = True, all_results = [JStr ''a'', JStr ''b''], world = 2,
              calls = [(1, JNull, Some (server_page 3 1 [JStr ''a'', JStr ''b''])), (2, JStr [], None)]\<rparr>)"
    by (simp add: make_query_all_callback_helper_def doWhilst.simps callback_iteratee_def
        callback_test_def callback_done_def unnamed_failure_second_def server_page_def)
qed

text \<open>
  C5, as stated, fails. The caller of a helper injects no page operation: it passes the
  client object, and the helper picks the operation by testing whether the query is a
  string. With one client whose two operations ignore the query and fail with
  different errors, the same entry point ends with the error of \<open>oql_query_page\<close> for
  a string query and with the error of \<open>query_page\<close> for an object query; and
  \<open>oql_query_all\<close> called with an object query uses \<open>query_page\<close>.
\<close>

theorem dialect_chosen_by_caller_counterexample:
  "map_option fst (query_all \<lparr>oql_query_page = oql_down, query_page = es_down\<rparr> (JStr ''x'') ''ns'' True 0)
     = Some (Callback (JStr ''oql'') JNull)
   \<and> map_option fst (query_all \<lparr>oql_query_page = oql_down, query_page = es_down\<rparr> (JObj []) ''ns'' True 0)
     = Some (Callback (JStr ''es'') JNull)
   \<and> map_option fst (oql_query_all \<lparr>oql_query_page = oql_down, query_page = es_down\<rparr> (JObj []) ''ns'' True 0)
     = Some (Callback (JStr ''es'') JNull)"
  by (simp add: query_all_def oql_query_all_def make_query_all_callback_helper_def doWhilst.simps
      callback_iteratee_def callback_done_def oql_down_def es_down_def)

lemma iteratee_cong:
  "F q = F' q' \<Longrightarrow> callback_iteratee F q ns = callback_iteratee F' q' ns"
  by (intro ext) (simp add: callback_iteratee_def)

lemma callback_helper_cong:
  assumes "page_op osdf q q = page_op osdf' q' q'"
  shows "make_query_all_callback_helper q ns osdf w = make_query_all_callback_helper q' ns osdf' w"
  unfolding callback_helper_unfold
  using iteratee_cong[where F="page_op osdf q" and q=q and F'="page_op osdf' q'" and q'=q' and ns=ns, OF assms] by simp

text \<open>
  C5, amended. Both entry points run the same helpers on the query and the client
  object. A helper binds \<open>func\<close> to \<open>oql_query_page\<close> when the query is a string and to
  \<open>query_page\<close> otherwise: the operation not selected has no influence on the outcome.
  From there on the loop is the same for both dialects: it uses the query only as the
  first argument of \<open>func\<close>, so two calls whose selected operations, applied to their
  queries, are the same fetch end alike.
\<close>

theorem dialect_selected_by_helper:
  "(isString q \<longrightarrow>
      make_query_all_callback_helper q ns (osdf\<lparr>query_page := f\<rparr>) w = make_query_all_callback_helper q ns osdf w
    \<and> make_query_all_promise_helper q ns (osdf\<lparr>query_page := f\<rparr>) w = make_query_all_promise_helper q ns osdf w)
   \<and> (\<not> isString q \<longrightarrow>
      make_query_all_callback_helper q ns (osdf\<lparr>oql_query_page := f\<rparr>) w = make_query_all_callback_helper q ns osdf w
    \<and> make_query_all_promise_helper q ns (osdf\<lparr>oql_query_page := f\<rparr>) w = make_query_all_promise_helper q ns osdf w)
   \<and> ((if isString q then oql_query_page osdf else query_page osdf) q
          = (if isString q' then oql_query_page osdf' else query_page osdf') q' \<longrightarrow>
      make_query_all_callback_helper q ns osdf w = make_query_all_callback_helper q' ns osdf' w
    \<and> make_query_all_promise_helper q ns osdf w = make_query_all_promise_helper q' ns osdf' w)
   \<and> query_all osdf q ns cb w = oql_query_all osdf q ns cb w"
proof (intro conjI impI)
  assume s: "isString q"
  then have "page_op (osdf\<lparr>query_page := f\<rparr>) q q = page_op osdf q q" by (simp add: page_op_def)
  from callback_helper_cong[OF this]
  show "make_query_all_callback_helper q ns (osdf\<lparr>query_page := f\<rparr>) w = make_query_all_callback_helper q ns osdf w" .
  then show "make_query_all_promise_helper q ns (osdf\<lparr>query_page := f\<rparr>) w = make_query_all_promise_helper q ns osdf w"
    by (simp add: promise_as_callback)
next
  assume s: "\<not> isString q"
  then have "page_op (osdf\<lparr>oql_query_page := f\<rparr>) q q = page_op osdf q q" by (simp add: page_op_def)
  from callback_helper_cong[OF this]
  show "make_query_all_callback_helper q ns (osdf\<lparr>oql_query_page := f\<rparr>) w = make_query_all_callback_helper q ns osdf w" .
  then show "make_query_all_promise_helper q ns (osdf\<lparr>oql_query_page := f\<rparr>) w = make_query_all_promise_helper q ns osdf w"
    by (simp add: promise_as_callback)
next
  assume "(if isString q then oql_query_page osdf else query_page osdf) q
          = (if isString q' then oql_query_page osdf' else query_page osdf') q'"
  then have "page_op osdf q q = page_op osdf' q' q'" by (simp add: page_op_def)
  from callback_helper_cong[OF this]
  show "make_query_all_callback_helper q ns osdf w = make_query_all_callback_helper q' ns osdf' w" .
  then show "make_query_all_promise_helper q ns osdf w = make_query_all_promise_helper q' ns osdf' w"
    by (simp add: promise_as_callback)
next
  show "query_all osdf q ns cb w = oql_query_all osdf q ns cb w"
    by (simp add: query_all_def oql_query_all_def)
qed

theorem dialect_selected_by_helper_witness:
  "isString (JStr ''x'')
   \<and> map_option fst (make_query_all_callback_helper (JStr ''x'') ''ns''
        \<lparr>oql_query_page = three_pages, query_page = es_down\<rparr> 0)
     = Some (Callback JNull (final [JStr ''a'', JStr ''b'', JStr ''c'']))
   \<and> \<not> isString (JObj [])
   \<and> map_option fst (make_query_all_callback_helper (JObj []) ''ns''
        \<lparr>oql_query_page = oql_down, query_page = three_pages\<rparr> 0)
     = Some (Callback JNull (final [JStr ''a'', JStr ''b'', JStr ''c'']))
   \<and> map_option fst (make_query_all_callback_helper (JObj []) ''ns''
        \<lparr>oql_query_page = es_down, query_page = three_pages\<rparr> 0)
     = Some (Callback JNull (final [JStr ''a'', JStr ''b'', JStr ''c'']))"
proof -
  have a: "map_option fst (make_query_all_callback_helper (JStr ''x'') ''ns''
        \<lparr>oql_query_page = three_pages, query_page = three_pages\<rparr> 0)
     = Some (Callback JNull (final [JStr ''a'', JStr ''b'', JStr ''c'']))"
    by (simp add: make_query_all_callback_helper_def doWhilst.simps callback_iteratee_def
        callback_test_def callback_done_def three_pages_def server_page_def)
  have s: "isString (JStr ''x'')" "\<not> isString (JObj [])" by simp_all
  have e: "(if isString (JStr ''x'') then oql_query_page \<lparr>oql_query_page = three_pages, query_page = es_down\<rparr>
               else query_page \<lparr>oql_query_page = three_pages, query_page = es_down\<rparr>) (JStr ''x'')
         = (if isString (JObj []) then oql_query_page \<lparr>oql_query_page = oql_down, query_page = three_pages\<rparr>
               else query_page \<lparr>oql_query_page = oql_down, query_page = three_pages\<rparr>) (JObj [])"
    by (simp add: three_pages_def fun_eq_iff)
  note t1 = dialect_selected_by_helper[where q="JStr ''x''" and ns="''ns''" and osdf="\<lparr>oql_query_page = three_pages, query_page = three_pages\<rparr>"
      and f=es_down and w=0 and q'="JObj []" and osdf'="\<lparr>oql_query_page = oql_down, query_page = three_pages\<rparr>" and cb=True]
  note t2 = dialect_selected_by_helper[where q="JStr ''x''" and ns="''ns''" and osdf="\<lparr>oql_query_page = three_pages, query_page = es_down\<rparr>"
      and f=es_down and w=0 and q'="JObj []" and osdf'="\<lparr>oql_query_page = oql_down, query_page = three_pages\<rparr>" and cb=True]
  note t3 = dialect_selected_by_helper[where q="JObj []" and ns="''ns''" and osdf="\<lparr>oql_query_page = oql_down, query_page = three_pages\<rparr>"
      and f=es_down and w=0 and q'="JObj []" and osdf'="\<lparr>oql_query_page = oql_down, query_page = three_pages\<rparr>" and cb=True]
  from t1 s a have b: "map_option fst (make_query_all_callback_helper (JStr ''x'') ''ns''
        \<lparr>oql_query_page = three_pages, query_page = es_down\<rparr> 0)
     = Some (Callback JNull (final [JStr ''a'', JStr ''b'', JStr ''c'']))"
    by simp
  from t2 e b have c: "map_option fst (make_query_all_callback_helper (JObj []) ''ns''
        \<lparr>oql_query_page = oql_down, query_page = three_pages\<rparr> 0)
     = Some (Callback JNull (final [JStr ''a'', JStr ''b'', JStr ''c'']))"
    by simp
  from t3 s c have d: "map_option fst (make_query_all_callback_helper (JObj []) ''ns''
        \<lparr>oql_query_page = es_down, query_page = three_pages\<rparr> 0)
     = Some (Callback JNull (final [JStr ''a'', JStr ''b'', JStr ''c'']))"
    by simp
  from s b c d show ?thesis by simp
qed









text \<open>
  C10, as stated, fails: status 201 alone does not make \<open>insert_node\<close> succeed. On a
  201 response without a \<open>location\<close> header, \<open>location.split\<close> is read from
  \<open>undefined\<close> and throws; the caller is not notified in either style.
\<close>

theorem created_without_location_counterexample:
  "insert_node (JObj []) True
       (Response \<lparr>statusCode = 201, headers = Map.empty, statusMessage = Some (JStr ''Created''), chunks = []\<rparr>)
     = Uncaught TypeError
   \<and> insert_node (JObj []) False
       (Response \<lparr>statusCode = 201, headers = Map.empty, statusMessage = Some (JStr ''Created''), chunks = []\<rparr>)
     = Uncaught TypeError"
  by (simp add: insert_node_def)

lemma split_not_Nil: "split c s \<noteq> []"
  by (induction s) (auto split: list.splits)

lemma split_single: "c \<notin> set s \<Longrightarrow> split c s = [s]"
  by (induction s) auto

lemma split_many: "c \<in> set s \<Longrightarrow> \<exists>y z zs. split c s = y # z # zs"
proof (induction s)
  case Nil
  then show ?case by simp
next
  case (Cons x xs)
  show ?case
  proof (cases "x = c")
    case True
    then show ?thesis using split_not_Nil[of c xs] by (cases "split c xs") auto
  next
    case False
    with Cons show ?thesis by auto
  qed
qed

lemma last_split: "last (split c s) = rev (takeWhile (\<lambda>x. x \<noteq> c) (rev s))"
proof (induction s)
  case Nil
  show ?case by simp
next
  case (Cons x xs)
  show ?case
  proof (cases "x = c")
    case True
    with Cons show ?thesis
      using split_not_Nil[of c xs] by (auto simp: takeWhile_append)
  next
    case False
    show ?thesis
    proof (cases "c \<in> set xs")
      case True
      from split_many[OF this] obtain y z zs where s: "split c xs = y # z # zs" by blast
      with Cons False True show ?thesis by (auto simp: takeWhile_append)
    next
      case inner: False
      with False show ?thesis by (simp add: split_single takeWhile_append)
    qed
  qed
qed

lemma pop_split: "pop (split CHR ''/'' s) = JStr (after_last_slash s)"
  using split_not_Nil[of "CHR ''/''" s]
  by (cases "split CHR ''/'' s") (auto simp: after_last_slash_def last_split[symmetric])

text \<open>
  C10, amended. For every node document: on a response with status code 201 and a
  \<open>location\<close> header, \<open>insert_node\<close> succeeds with the part of that header after its
  last \<open>/\<close> as node id (the whole header when it holds no \<open>/\<close>); on any other status
  code it yields the error chosen by the precedence of the other operations; and it
  succeeds in no other case: a resolved promise, or a callback that receives data,
  comes from a 201 response with a \<open>location\<close> header.
\<close>

theorem insert_node_decoding:
  "(statusCode r = 201 \<and> headers r ''location'' = Some (JStr loc) \<longrightarrow>
      insert_node d True (Response r) = Callback JNull (JStr (after_last_slash loc))
    \<and> insert_node d False (Response r) = Resolve (JStr (after_last_slash loc)))
   \<and> (statusCode r \<noteq> 201 \<longrightarrow>
      insert_node d True (Response r) = Callback (error_by_precedence r) JNull
    \<and> insert_node d False (Response r) = Reject (error_by_precedence r))
   \<and> (insert_node d False t = Resolve v \<longrightarrow>
        (\<exists>r' loc'. t = Response r' \<and> statusCode r' = 201 \<and> headers r' ''location'' = Some (JStr loc')
            \<and> v = JStr (after_last_slash loc')))
   \<and> (insert_node d True t = Callback e' v \<and> v \<noteq> JNull \<longrightarrow>
        (\<exists>r' loc'. t = Response r' \<and> statusCode r' = 201 \<and> headers r' ''location'' = Some (JStr loc')
            \<and> e' = JNull \<and> v = JStr (after_last_slash loc')))"
proof (intro conjI impI)
  assume "statusCode r = 201 \<and> headers r ''location'' = Some (JStr loc)"
  then show "insert_node d True (Response r) = Callback JNull (JStr (after_last_slash loc))"
    and "insert_node d False (Response r) = Resolve (JStr (after_last_slash loc))"
    by (simp_all add: insert_node_def pop_split)
next
  assume "statusCode r \<noteq> 201"
  then show "insert_node d True (Response r) = Callback (error_by_precedence r) JNull"
    and "insert_node d False (Response r) = Reject (error_by_precedence r)"
    by (auto simp: insert_node_def error_by_precedence_def split: option.splits)
next
  assume "insert_node d False t = Resolve v"
  then show "\<exists>r' loc'. t = Response r' \<and> statusCode r' = 201 \<and> headers r' ''location'' = Some (JStr loc')
            \<and> v = JStr (after_last_slash loc')"
    by (auto simp: insert_node_def pop_split split: transport.splits if_splits option.splits jsval.splits)
next
  assume "insert_node d True t = Callback e' v \<and> v \<noteq> JNull"
  then show "\<exists>r' loc'. t = Response r' \<and> statusCode r' = 201 \<and> headers r' ''location'' = Some (JStr loc')
            \<and> e' = JNull \<and> v = JStr (after_last_slash loc')"
    by (auto simp: insert_node_def pop_split split: transport.splits if_splits option.splits jsval.splits)
qed

theorem insert_node_decoding_witness:
  "insert_node (JObj [(''node_type'', JStr ''unregistered'')]) True
       (Response \<lparr>statusCode = 201, headers = [''location'' \<mapsto> JStr ''http://h:8123/nodes/ab12''],
                  statusMessage = Some (JStr ''Created''), chunks = []\<rparr>)
     = Callback JNull (JStr ''ab12'')
   \<and> insert_node (JObj [(''node_type'', JStr ''unregistered'')]) False
       (Response \<lparr>statusCode = 201, headers = [''location'' \<mapsto> JStr ''http://h:8123/nodes/ab12''],
                  statusMessage = Some (JStr ''Created''), chunks = []\<rparr>)
     = Resolve (JStr ''ab12'')
   \<and> insert_node (JObj [(''node_type'', JStr ''unregistered'')]) False
       (Response \<lparr>statusCode = 422, headers = [''x-osdf-error'' \<mapsto> JStr ''Invalid node''],
                  statusMessage = Some (JStr ''Unprocessable Entity''), chunks = []\<rparr>)
     = Reject (JStr ''Invalid node'')
   \<and> insert_node (JObj [(''node_type'', JStr ''unregistered'')]) False
       (Response \<lparr>statusCode = 200, headers = [''location'' \<mapsto> JStr ''http://h:8123/nodes/ab12''],
                  statusMessage = Some (JStr ''OK''), chunks = []\<rparr>)
     = Reject (JStr ''OK'')
   \<and> (\<exists>r' loc'.
         Response \<lparr>statusCode = 201, headers = [''location'' \<mapsto> JStr ''http://h:8123/nodes/ab12''],
                   statusMessage = Some (JStr ''Created''), chunks = []\<rparr> = Response r'
         \<and> statusCode r' = 201 \<and> headers r' ''location'' = Some (JStr loc')
         \<and> JStr ''ab12'' = JStr (after_last_slash loc'))"
proof -
  let ?d = "JObj [(''node_type'', JStr ''unregistered'')]"
  let ?created = "\<lparr>statusCode = 201, headers = [''location'' \<mapsto> JStr ''http://h:8123/nodes/ab12''],
        statusMessage = Some (JStr ''Created''), chunks = []\<rparr>"
  note a = insert_node_decoding[where d = ?d
      and loc = "''http://h:8123/nodes/ab12''" and t = "Response ?created" and v = "JStr ''ab12''"
      and e' = JNull and r = ?created]
  note b = insert_node_decoding[where d = ?d
      and loc = "[]" and t = "RequestError JNull" and v = JNull and e' = JNull and r =
      "\<lparr>statusCode = 422, headers = [''x-osdf-error'' \<mapsto> JStr ''Invalid node''],
        statusMessage = Some (JStr ''Unprocessable Entity''), chunks = []\<rparr>"]
  note c = insert_node_decoding[where d = ?d
      and loc = "[]" and t = "RequestError JNull" and v = JNull and e' = JNull and r =
      "\<lparr>statusCode = 200, headers = [''location'' \<mapsto> JStr ''http://h:8123/nodes/ab12''],
        statusMessage = Some (JStr ''OK''), chunks = []\<rparr>"]
  have s: "after_last_slash ''http://h:8123/nodes/ab12'' = ''ab12''"
    by (simp add: after_last_slash_def)
  from a s have 1: "insert_node ?d True (Response ?created) = Callback JNull (JStr ''ab12'')"
    and 2: "insert_node ?d False (Response ?created) = Resolve (JStr ''ab12'')"
    by simp_all
  from conjunct1[OF conjunct2[OF conjunct2[OF a]]] 2 have 3:
    "\<exists>r' loc'. Response ?created = Response r' \<and> statusCode r' = 201
        \<and> headers r' ''location'' = Some (JStr loc') \<and> JStr ''ab12'' = JStr (after_last_slash loc')"
    by (rule mp)
  from b have 4: "insert_node ?d False
       (Response \<lparr>statusCode = 422, headers = [''x-osdf-error'' \<mapsto> JStr ''Invalid node''],
                  statusMessage = Some (JStr ''Unprocessable Entity''), chunks = []\<rparr>)
     = Reject (JStr ''Invalid node'')" by (simp add: error_by_precedence_def)
  from c have 5: "insert_node ?d False
       (Response \<lparr>statusCode = 200, headers = [''location'' \<mapsto> JStr ''http://h:8123/nodes/ab12''],
                  statusMessage = Some (JStr ''OK''), chunks = []\<rparr>)
     = Reject (JStr ''OK'')" by (simp add: error_by_precedence_def)
  from 1 2 3 4 5 show ?thesis by blast
qed

end
